theory Spec2Isabelle
  imports Complex_Main "HOL-Library.Multiset" "HOL-Library.Product_Lexorder"
begin

section \<open>Values, columns and frames\<close>

text \<open>
  The notebook \<^verbatim>\<open>Preprocessing/Data_Preprocessing.ipynb\<close> works on one pandas
  DataFrame. A frame is modelled column-wise, as pandas stores it: a list of row labels
  (the index) and a list of named columns, each column homogeneous in its dtype.

  \<^item> A \<^verbatim>\<open>datetime64\<close> cell is \<open>Some t\<close> (nanoseconds since the epoch) or \<open>None\<close> (NaT).
  \<^item> A cell of a numeric column (\<^verbatim>\<open>int64\<close> or \<^verbatim>\<open>float64\<close>) is \<open>Some q\<close> or \<open>None\<close> (NaN,
    which only a float64 column can hold). The code never does arithmetic on the cells, it
    only sorts and copies them, so a cell is an exact rational.
  \<^item> A column of dtype \<^verbatim>\<open>object\<close> holds arbitrary cells.
\<close>

datatype error = ValueError | IndexError | KeyError | TypeError | LabelMismatch

datatype cell = Timestamp "int option" | Number "rat option" | Str string

datatype numtype = int64 | float64

datatype column =
    Datetime64 "int option list"
  | Numeric numtype "rat option list"
  | Object "cell list"

record dataframe =
  index :: "nat list"
  columns :: "(string \<times> column) list"

fun cells_of :: "column \<Rightarrow> cell list" where
  "cells_of (Datetime64 ts) = map Timestamp ts"
| "cells_of (Numeric t xs) = map Number xs"
| "cells_of (Object cs) = cs"

definition nrows :: "dataframe \<Rightarrow> nat" where
  "nrows df = length (index df)"

text \<open>Every column of a pandas frame is as long as the index.\<close>

definition well_formed :: "dataframe \<Rightarrow> bool" where
  "well_formed df = list_all (\<lambda>(name, c). length (cells_of c) = length (index df)) (columns df)"

text \<open>
  The rows of a frame, as an observer sees them: the label of row \<open>i\<close> with the cells
  of row \<open>i\<close>, one per column.
\<close>

definition row_cells :: "dataframe \<Rightarrow> nat \<Rightarrow> cell list" where
  "row_cells df i = map (\<lambda>(name, c). cells_of c ! i) (columns df)"

definition rows :: "dataframe \<Rightarrow> (nat \<times> cell list) list" where
  "rows df = map (\<lambda>i. (index df ! i, row_cells df i)) [0..<nrows df]"

section \<open>The library routine: scipy.stats.mstats.winsorize\<close>

text \<open>
  \<^verbatim>\<open>winsorize_outliers\<close> hands each numeric column to
  \<^verbatim>\<open>scipy.stats.mstats.winsorize(a, limits=limits)\<close>, with the routine's defaults
  \<^verbatim>\<open>inclusive=(True, True)\<close>, \<^verbatim>\<open>inplace=False\<close>, \<^verbatim>\<open>axis=None\<close>, \<^verbatim>\<open>nan_policy='propagate'\<close>.
  On that path the routine is
  \<^verbatim>\<open>
    a = ma.array(a, copy=True)
    (lolim, uplim) = limits
    if lolim is not None:
        if lolim > 1. or lolim < 0: raise ValueError(...)
    if uplim is not None:
        if uplim > 1. or uplim < 0: raise ValueError(...)
    return _winsorize1D(a.ravel(), lolim, uplim, ...)

    def _winsorize1D(a, low_limit, up_limit, ...):
        n = a.count()
        idx = a.argsort()
        if low_limit:
            lowidx = int(low_limit * n)
            a[idx[:lowidx]] = a[idx[lowidx]]
        if up_limit is not None:
            upidx = n - int(n * up_limit)
            a[idx[upidx:]] = a[idx[upidx - 1]]
        return a
  \<close>
  The array built from a pandas column masks nothing, so \<^verbatim>\<open>a.count()\<close> is the length of
  the column, NaN cells included, and \<^verbatim>\<open>argsort\<close> orders NaN after every number.
  The products \<^verbatim>\<open>low_limit * n\<close> and \<^verbatim>\<open>n * up_limit\<close> are float products in the routine
  and exact products here; the notebook's limit 0.05 is the rational 1/20, and for it both
  truncate to \<open>n div 20\<close> at every column length a machine can hold.
\<close>

definition nan_last :: "rat option \<Rightarrow> nat \<times> rat" where
  "nan_last v = (case v of Some q \<Rightarrow> (0, q) | None \<Rightarrow> (1, 0))"

definition argsort :: "rat option list \<Rightarrow> nat list" where
  "argsort a = sort_key (\<lambda>i. nan_last (a ! i)) [0..<length a]"

text \<open>Python's \<^verbatim>\<open>int(x)\<close> on a float truncates towards zero.\<close>

definition py_int :: "rat \<Rightarrow> int" where
  "py_int x = (if 0 \<le> x then \<lfloor>x\<rfloor> else \<lceil>x\<rceil>)"

text \<open>\<^verbatim>\<open>xs[i]\<close>, \<^verbatim>\<open>xs[:k]\<close> and \<^verbatim>\<open>xs[k:]\<close>: a negative position counts from the end.\<close>

definition item :: "'a list \<Rightarrow> int \<Rightarrow> error + 'a" where
  "item xs i =
     (if 0 \<le> i \<and> i < int (length xs) then Inr (xs ! nat i)
      else if i < 0 \<and> - int (length xs) \<le> i then Inr (xs ! nat (int (length xs) + i))
      else Inl IndexError)"

definition slice_to :: "'a list \<Rightarrow> int \<Rightarrow> 'a list" where
  "slice_to xs k = (if 0 \<le> k then take (nat k) xs else take (nat (int (length xs) + k)) xs)"

definition slice_from :: "'a list \<Rightarrow> int \<Rightarrow> 'a list" where
  "slice_from xs k = (if 0 \<le> k then drop (nat k) xs else drop (nat (int (length xs) + k)) xs)"

text \<open>
  \<^verbatim>\<open>a[positions] = v\<close> with an array of positions; every position comes out of
  \<^verbatim>\<open>argsort\<close>, so it is in range.
\<close>

definition put :: "'a list \<Rightarrow> nat list \<Rightarrow> 'a \<Rightarrow> 'a list" where
  "put a ps v = fold (\<lambda>p b. b[p := v]) ps a"

definition winsorize1D_at ::
  "nat list \<Rightarrow> rat option list \<Rightarrow> rat \<Rightarrow> rat \<Rightarrow> error + rat option list" where
  "winsorize1D_at idx a low_limit up_limit =
     (let n = length a in
      case (if low_limit \<noteq> 0 then
              (let lowidx = py_int (low_limit * of_nat n) in
               case item idx lowidx of
                 Inl e \<Rightarrow> Inl e
               | Inr j \<Rightarrow> Inr (put a (slice_to idx lowidx) (a ! j)))
            else Inr a) of
        Inl e \<Rightarrow> Inl e
      | Inr a' \<Rightarrow>
          (let upidx = int n - py_int (of_nat n * up_limit) in
           case item idx (upidx - 1) of
             Inl e \<Rightarrow> Inl e
           | Inr j \<Rightarrow> Inr (put a' (slice_from idx upidx) (a' ! j))))"

definition winsorize1D :: "rat option list \<Rightarrow> rat \<Rightarrow> rat \<Rightarrow> error + rat option list" where
  "winsorize1D a low_limit up_limit = winsorize1D_at (argsort a) a low_limit up_limit"

definition winsorize :: "rat option list \<Rightarrow> rat \<times> rat \<Rightarrow> error + rat option list" where
  "winsorize a limits =
     (case limits of (lolim, uplim) \<Rightarrow>
        if lolim > 1 \<or> lolim < 0 then Inl ValueError
        else if uplim > 1 \<or> uplim < 0 then Inl ValueError
        else winsorize1D a lolim uplim)"


subsection \<open>Order statistics and clipping, for stating what the routine computes\<close>

text \<open>
  The column sorted as \<^verbatim>\<open>argsort\<close> orders it is \<open>sort_key nan_last a\<close>. The two clip
  bounds the routine reads are the entries of that list at the positions
  \<^verbatim>\<open>int(low_limit * n)\<close> and \<^verbatim>\<open>n - int(n * up_limit) - 1\<close>.
\<close>

definition lower_bound :: "rat option list \<Rightarrow> rat \<Rightarrow> rat option" where
  "lower_bound a lo = sort_key nan_last a ! nat (py_int (lo * of_nat (length a)))"

definition upper_bound :: "rat option list \<Rightarrow> rat \<Rightarrow> rat option" where
  "upper_bound a up =
     sort_key nan_last a ! nat (int (length a) - py_int (of_nat (length a) * up) - 1)"

definition raise_to :: "rat option \<Rightarrow> rat option \<Rightarrow> rat option" where
  "raise_to v x = (if nan_last x < nan_last v then v else x)"

definition lower_to :: "rat option \<Rightarrow> rat option \<Rightarrow> rat option" where
  "lower_to w x = (if nan_last w < nan_last x then w else x)"

definition clip :: "rat option \<Rightarrow> rat option \<Rightarrow> rat option \<Rightarrow> rat option" where
  "clip l h x = (if nan_last x < nan_last l then l else if nan_last h < nan_last x then h else x)"

text \<open>
  A list of positions that \<^verbatim>\<open>argsort\<close> may return for \<open>a\<close>: a permutation of the
  positions that puts the cells in ascending order. numpy's default sort is not stable, so
  cells that compare equal may come in any order.
\<close>

definition sorting :: "nat list \<Rightarrow> rat option list \<Rightarrow> bool" where
  "sorting idx a =
     (mset idx = mset [0..<length a] \<and> sorted (map (\<lambda>i. nan_last (a ! i)) idx))"


subsection \<open>The quantile clipping that the specification describes\<close>



section \<open>The notebook\<close>

subsection \<open>winsorize_outliers\<close>

text \<open>
  \<^verbatim>\<open>
    def winsorize_outliers(df, limits=(0.05, 0.05)):
        for column in df.select_dtypes(include=['float64', 'int64']).columns:
            df[column] = winsorize(df[column], limits=limits)
        return df
  \<close>
  The loop visits the numeric columns in frame order and stops at the first call that
  raises. The frame read by \<^verbatim>\<open>read_csv\<close> has distinct column labels, so a column is
  addressed by its position.
\<close>

fun winsorize_column :: "column \<Rightarrow> rat \<times> rat \<Rightarrow> error + column" where
  "winsorize_column (Numeric t xs) limits =
     (case winsorize xs limits of Inl e \<Rightarrow> Inl e | Inr ys \<Rightarrow> Inr (Numeric t ys))"
| "winsorize_column c limits = Inr c"

fun winsorize_columns ::
  "(string \<times> column) list \<Rightarrow> rat \<times> rat \<Rightarrow> error + (string \<times> column) list" where
  "winsorize_columns [] limits = Inr []"
| "winsorize_columns ((name, c) # cs) limits =
     (case winsorize_column c limits of
        Inl e \<Rightarrow> Inl e
      | Inr c' \<Rightarrow>
          (case winsorize_columns cs limits of
             Inl e \<Rightarrow> Inl e
           | Inr cs' \<Rightarrow> Inr ((name, c') # cs')))"

definition winsorize_outliers :: "dataframe \<Rightarrow> rat \<times> rat \<Rightarrow> error + dataframe" where
  "winsorize_outliers df limits =
     (case winsorize_columns (columns df) limits of
        Inl e \<Rightarrow> Inl e
      | Inr cs \<Rightarrow> Inr (df\<lparr>columns := cs\<rparr>))"

subsection \<open>The date windows\<close>

text \<open>
  \<^verbatim>\<open>
    pre_lockdown = (df['Date'] >= '2020-03-01') & (df['Date'] < '2020-03-22')
    ...
    df_pre_lockdown = df[pre_lockdown]
  \<close>
  The cell runs after \<^verbatim>\<open>df['Date'] = pd.to_datetime(df['Date'])\<close>, so the Date column
  has dtype datetime64; a comparison with NaT is false. \<^verbatim>\<open>df['Date']\<close> raises KeyError
  when the frame has no such column. A Date column of another dtype cannot reach this
  cell; the model ends in TypeError there.
\<close>

definition getitem_Date :: "dataframe \<Rightarrow> error + int option list" where
  "getitem_Date df =
     (case map_of (columns df) ''Date'' of
        None \<Rightarrow> Inl KeyError
      | Some (Datetime64 ts) \<Rightarrow> Inr ts
      | Some _ \<Rightarrow> Inl TypeError)"

definition in_window :: "int \<times> int \<Rightarrow> int option \<Rightarrow> bool" where
  "in_window w t = (case t of None \<Rightarrow> False | Some x \<Rightarrow> fst w \<le> x \<and> x < snd w)"

definition window_mask :: "int option list \<Rightarrow> int \<times> int \<Rightarrow> bool list" where
  "window_mask ts w = map (in_window w) ts"

text \<open>\<^verbatim>\<open>xs[mask]\<close>: the entries of \<open>xs\<close> at which the mask is true, in their order.\<close>

definition compress :: "bool list \<Rightarrow> 'a list \<Rightarrow> 'a list" where
  "compress m xs = map fst (filter snd (zip xs m))"

fun filter_column :: "bool list \<Rightarrow> column \<Rightarrow> column" where
  "filter_column m (Datetime64 ts) = Datetime64 (compress m ts)"
| "filter_column m (Numeric t xs) = Numeric t (compress m xs)"
| "filter_column m (Object cs) = Object (compress m cs)"

definition getitem_mask :: "dataframe \<Rightarrow> bool list \<Rightarrow> dataframe" where
  "getitem_mask df m =
     \<lparr>index = compress m (index df),
      columns = map (\<lambda>(name, c). (name, filter_column m c)) (columns df)\<rparr>"

definition select_window :: "dataframe \<Rightarrow> int \<times> int \<Rightarrow> error + dataframe" where
  "select_window df w =
     (case getitem_Date df of
        Inl e \<Rightarrow> Inl e
      | Inr ts \<Rightarrow> Inr (getitem_mask df (window_mask ts w)))"

fun select_windows :: "dataframe \<Rightarrow> (int \<times> int) list \<Rightarrow> error + dataframe list" where
  "select_windows df [] = Inr []"
| "select_windows df (w # ws) =
     (case select_window df w of
        Inl e \<Rightarrow> Inl e
      | Inr p \<Rightarrow>
          (case select_windows df ws of Inl e \<Rightarrow> Inl e | Inr ps \<Rightarrow> Inr (p # ps)))"

subsection \<open>Clipping each partition, and the merge\<close>

text \<open>
  \<^verbatim>\<open>
    winsorize_outliers (df_pre_lockdown)
    winsorize_outliers (df_lockdown)
    winsorize_outliers (df_recovery)
    winsorize_outliers (df_post_lockdown)
  \<close>
  Each call changes its partition in place; the calls run in this order and the first
  one that raises ends the cell.
\<close>

fun winsorize_each :: "dataframe list \<Rightarrow> rat \<times> rat \<Rightarrow> error + dataframe list" where
  "winsorize_each [] limits = Inr []"
| "winsorize_each (p # ps) limits =
     (case winsorize_outliers p limits of
        Inl e \<Rightarrow> Inl e
      | Inr p' \<Rightarrow>
          (case winsorize_each ps limits of Inl e \<Rightarrow> Inl e | Inr ps' \<Rightarrow> Inr (p' # ps')))"

definition clipped_partitions ::
  "dataframe \<Rightarrow> (int \<times> int) list \<Rightarrow> rat \<times> rat \<Rightarrow> error + dataframe list" where
  "clipped_partitions df windows limits =
     (case select_windows df windows of
        Inl e \<Rightarrow> Inl e
      | Inr ps \<Rightarrow> winsorize_each ps limits)"

text \<open>
  \<^verbatim>\<open>df_merged = pd.concat([df_pre_lockdown, df_lockdown, df_recovery, df_post_lockdown],
                               ignore_index=True)\<close>
  Columns of one dtype are joined in that dtype, int64 with float64 gives float64, any
  other pair gives an object column of the cells as they are. \<^verbatim>\<open>pd.concat\<close> of no frame
  raises ValueError. The frames joined here are partitions of one frame and carry the same
  labels in the same order; frames whose labels differ (pandas would align them and fill
  the gaps) are outside this model and end in \<open>LabelMismatch\<close>.
\<close>

fun append_column :: "column \<Rightarrow> column \<Rightarrow> column" where
  "append_column (Datetime64 xs) (Datetime64 ys) = Datetime64 (xs @ ys)"
| "append_column (Numeric t xs) (Numeric u ys) =
     Numeric (if t = u then t else float64) (xs @ ys)"
| "append_column c d = Object (cells_of c @ cells_of d)"

fun append_columns ::
  "(string \<times> column) list \<Rightarrow> (string \<times> column) list \<Rightarrow> error + (string \<times> column) list" where
  "append_columns [] [] = Inr []"
| "append_columns ((n, c) # cs) ((m, d) # ds) =
     (if n = m then
        (case append_columns cs ds of
           Inl e \<Rightarrow> Inl e
         | Inr r \<Rightarrow> Inr ((n, append_column c d) # r))
      else Inl LabelMismatch)"
| "append_columns cs ds = Inl LabelMismatch"

fun concat_columns :: "dataframe list \<Rightarrow> error + (string \<times> column) list" where
  "concat_columns [] = Inl ValueError"
| "concat_columns [f] = Inr (columns f)"
| "concat_columns (f # fs) =
     (case concat_columns fs of
        Inl e \<Rightarrow> Inl e
      | Inr cs \<Rightarrow> append_columns (columns f) cs)"

definition concat_frames :: "dataframe list \<Rightarrow> error + dataframe" where
  "concat_frames fs =
     (case concat_columns fs of
        Inl e \<Rightarrow> Inl e
      | Inr cs \<Rightarrow> Inr \<lparr>index = [0..<sum_list (map nrows fs)], columns = cs\<rparr>)"

definition segment_and_clip ::
  "dataframe \<Rightarrow> (int \<times> int) list \<Rightarrow> rat \<times> rat \<Rightarrow> error + dataframe" where
  "segment_and_clip df windows limits =
     (case clipped_partitions df windows limits of
        Inl e \<Rightarrow> Inl e
      | Inr ps \<Rightarrow> concat_frames ps)"

text \<open>
  The notebook's four windows and its limits. A day is counted from 1970-01-01:
  2020-03-01 is day 18322, 2020-03-22 day 18343, 2021-06-08 day 18786, 2021-09-13 day
  18883 and 2024-10-31 day 20027.
\<close>

definition day :: "int \<Rightarrow> int" where
  "day d = d * 86400000000000"

definition boundaries :: "(int \<times> int) list" where
  "boundaries =
     [(day 18322, day 18343), (day 18343, day 18786),
      (day 18786, day 18883), (day 18883, day 20027)]"

definition df_merged :: "dataframe \<Rightarrow> error + dataframe" where
  "df_merged df = segment_and_clip df boundaries (1 / 20, 1 / 20)"

section \<open>Sample frames\<close>

text \<open>
  Small frames on which the theorems below are run. The first has four rows, an int64
  column, two float64 columns holding NaN and an object column; the second is what
  \<^verbatim>\<open>winsorize_outliers\<close> makes of it with the limits (0.25, 0.25).
\<close>

definition frame4 :: dataframe where
  "frame4 =
     \<lparr>index = [0, 1, 2, 3],
      columns =
        [(''Date'', Datetime64 [Some (day 18336), Some (day 18346), Some (day 18350), Some (day 20089)]),
         (''Subways'', Numeric int64 [Some 40, Some 10, Some 30, Some 20]),
         (''Buses'', Numeric float64 [Some (1 / 2), None, Some (3 / 2), Some 1]),
         (''Bridges'', Numeric float64 [Some 1, None, None, Some 2]),
         (''Note'', Object [Str ''a'', Str ''b'', Str ''c'', Str ''d''])]\<rparr>"

definition frame4_clipped :: dataframe where
  "frame4_clipped =
     \<lparr>index = [0, 1, 2, 3],
      columns =
        [(''Date'', Datetime64 [Some (day 18336), Some (day 18346), Some (day 18350), Some (day 20089)]),
         (''Subways'', Numeric int64 [Some 30, Some 20, Some 30, Some 20]),
         (''Buses'', Numeric float64 [Some 1, Some (3 / 2), Some (3 / 2), Some 1]),
         (''Bridges'', Numeric float64 [Some 2, None, None, Some 2]),
         (''Note'', Object [Str ''a'', Str ''b'', Str ''c'', Str ''d''])]\<rparr>"




text \<open>
  Nine rows: four in March 2020 before the 22nd, four after it, in alternation, and one in
  2025.
\<close>

definition frame9_dates :: "int option list" where
  "frame9_dates =
     [Some (day 18330), Some (day 18350), Some (day 18331), Some (day 18351),
      Some (day 20089), Some (day 18332), Some (day 18352), Some (day 18333),
      Some (day 18353)]"

definition frame9_subways :: "rat option list" where
  "frame9_subways =
     [Some 40, Some 400, Some 10, Some 100, Some 7, Some 30, Some 300, Some 20, Some 200]"

definition frame9 :: dataframe where
  "frame9 =
     \<lparr>index = [0..<9],
      columns = [(''Date'', Datetime64 frame9_dates), (''Subways'', Numeric int64 frame9_subways)]\<rparr>"


text \<open>
  The nine-row frame cut at the windows from 2020-03-22 to 2021-06-08 and from 2020-03-01
  to 2020-03-22, in this order, each partition clipped with the limits (0.25, 0.25), and
  the two partitions merged.
\<close>

definition frame9_partitions :: "dataframe list" where
  "frame9_partitions =
     [\<lparr>index = [1, 3, 6, 8],
       columns =
         [(''Date'', Datetime64 [Some (day 18350), Some (day 18351), Some (day 18352), Some (day 18353)]),
          (''Subways'', Numeric int64 [Some 300, Some 200, Some 300, Some 200])]\<rparr>,
      \<lparr>index = [0, 2, 5, 7],
       columns =
         [(''Date'', Datetime64 [Some (day 18330), Some (day 18331), Some (day 18332), Some (day 18333)]),
          (''Subways'', Numeric int64 [Some 30, Some 20, Some 30, Some 20])]\<rparr>]"

definition frame9_merged :: dataframe where
  "frame9_merged =
     \<lparr>index = [0..<8],
      columns =
        [(''Date'', Datetime64
            [Some (day 18350), Some (day 18351), Some (day 18352), Some (day 18353),
             Some (day 18330), Some (day 18331), Some (day 18332), Some (day 18333)]),
         (''Subways'', Numeric int64
            [Some 300, Some 200, Some 300, Some 200, Some 30, Some 20, Some 30, Some 20])]\<rparr>"

section \<open>Properties of the library routine\<close>

lemma inj_nan_last: "inj nan_last"
  by (auto simp: inj_def nan_last_def split: option.splits)

lemma nan_last_eq: "nan_last x = nan_last y \<longleftrightarrow> x = y"
  using inj_nan_last by (auto dest: injD)

lemma length_put: "length (put a ps v) = length a"
  unfolding put_def by (induction ps arbitrary: a) auto

lemma nth_put: "i < length a \<Longrightarrow> put a ps v ! i = (if i \<in> set ps then v else a ! i)"
  unfolding put_def
proof (induction ps arbitrary: a)
  case Nil
  then show ?case by simp
next
  case (Cons p ps)
  then show ?case by (auto simp: nth_list_update)
qed

lemma sorting_argsort: "sorting (argsort a) a"
  by (simp add: sorting_def argsort_def)

lemma sorting_length: "sorting idx a \<Longrightarrow> length idx = length a"
  by (metis sorting_def mset_eq_length length_upt diff_zero)

lemma sorting_set: "sorting idx a \<Longrightarrow> set idx = {0..<length a}"
  by (metis sorting_def mset_eq_setD set_upt)

lemma sorting_nth_less: "sorting idx a \<Longrightarrow> p < length a \<Longrightarrow> idx ! p < length a"
  using sorting_set[of idx a] sorting_length[of idx a] nth_mem[of p idx] by auto

lemma sorting_mono:
  "sorting idx a \<Longrightarrow> p \<le> q \<Longrightarrow> q < length a \<Longrightarrow> nan_last (a ! (idx ! p)) \<le> nan_last (a ! (idx ! q))"
  using sorted_nth_mono[of "map (\<lambda>i. nan_last (a ! i)) idx" p q] sorting_length[of idx a]
  by (simp add: sorting_def)

lemma sorting_sorted: "sorting idx a \<Longrightarrow> map ((!) a) idx = sort_key nan_last a"
proof -
  assume s: "sorting idx a"
  have "mset (map ((!) a) idx) = mset (map ((!) a) [0..<length a])"
    using s unfolding sorting_def by (metis mset_map)
  also have "\<dots> = mset a" by (simp only: map_nth)
  finally have m: "mset a = mset (map ((!) a) idx)" by simp
  have "sorted (map nan_last (map ((!) a) idx))"
    using s by (simp add: sorting_def comp_def)
  with m show ?thesis
    using sort_key_inj_key_eq[of a "map ((!) a) idx" nan_last] inj_nan_last
    by (simp add: inj_on_def nan_last_eq)
qed

lemma sorting_nth: "sorting idx a \<Longrightarrow> p < length a \<Longrightarrow> a ! (idx ! p) = sort_key nan_last a ! p"
  using sorting_sorted[of idx a] sorting_length[of idx a]
  by (metis nth_map)

lemma low_step:
  assumes s: "sorting idx a" and L: "L < length a"
  shows "put a (take L idx) (a ! (idx ! L)) = map (raise_to (a ! (idx ! L))) a"
proof (rule nth_equalityI)
  show "length (put a (take L idx) (a ! (idx ! L))) = length (map (raise_to (a ! (idx ! L))) a)"
    by (simp add: length_put)
next
  fix i assume "i < length (put a (take L idx) (a ! (idx ! L)))"
  then have i: "i < length a" by (simp add: length_put)
  have len: "length idx = length a" using s by (rule sorting_length)
  show "put a (take L idx) (a ! (idx ! L)) ! i = map (raise_to (a ! (idx ! L))) a ! i"
  proof (cases "i \<in> set (take L idx)")
    case True
    then obtain p where p: "p < L" "idx ! p = i"
      using len L by (auto simp: in_set_conv_nth)
    have "nan_last (a ! i) \<le> nan_last (a ! (idx ! L))"
      using sorting_mono[OF s, of p L] p L by simp
    then show ?thesis using True i
      by (auto simp: nth_put raise_to_def nan_last_eq)
  next
    case False
    have "i \<in> set idx" using sorting_set[OF s] i by simp
    then have "i \<in> set (take L idx) \<union> set (drop L idx)"
      by (metis append_take_drop_id set_append)
    with False have "i \<in> set (drop L idx)" by simp
    then obtain p where p: "L \<le> p" "p < length a" "idx ! p = i"
      using len by (auto simp: in_set_conv_nth) (metis le_add1 less_diff_conv add.commute)
    have "nan_last (a ! (idx ! L)) \<le> nan_last (a ! i)"
      using sorting_mono[OF s, of L p] p by simp
    then show ?thesis using False i
      by (auto simp: nth_put raise_to_def)
  qed
qed

lemma up_step:
  assumes s: "sorting idx a" and U: "0 < U" "U \<le> length a"
  shows "put a (drop U idx) (a ! (idx ! (U - 1))) = map (lower_to (a ! (idx ! (U - 1)))) a"
proof (rule nth_equalityI)
  show "length (put a (drop U idx) (a ! (idx ! (U - 1)))) = length (map (lower_to (a ! (idx ! (U - 1)))) a)"
    by (simp add: length_put)
next
  fix i assume "i < length (put a (drop U idx) (a ! (idx ! (U - 1))))"
  then have i: "i < length a" by (simp add: length_put)
  have len: "length idx = length a" using s by (rule sorting_length)
  show "put a (drop U idx) (a ! (idx ! (U - 1))) ! i = map (lower_to (a ! (idx ! (U - 1)))) a ! i"
  proof (cases "i \<in> set (drop U idx)")
    case True
    then obtain p where p: "U \<le> p" "p < length a" "idx ! p = i"
      using len by (auto simp: in_set_conv_nth) (metis le_add1 less_diff_conv add.commute)
    have "nan_last (a ! (idx ! (U - 1))) \<le> nan_last (a ! i)"
      using sorting_mono[OF s, of "U - 1" p] p U by simp
    then show ?thesis using True i
      by (auto simp: nth_put lower_to_def nan_last_eq)
  next
    case False
    have "i \<in> set idx" using sorting_set[OF s] i by simp
    then have "i \<in> set (take U idx) \<union> set (drop U idx)"
      by (metis append_take_drop_id set_append)
    with False have "i \<in> set (take U idx)" by simp
    then obtain p where p: "p < U" "idx ! p = i"
      using len U by (auto simp: in_set_conv_nth)
    have "nan_last (a ! i) \<le> nan_last (a ! (idx ! (U - 1)))"
      using sorting_mono[OF s, of p "U - 1"] p U by simp
    then show ?thesis using False i
      by (auto simp: nth_put lower_to_def)
  qed
qed

lemma all_step:
  assumes s: "sorting idx a"
  shows "put a idx v = replicate (length a) v"
proof (rule nth_equalityI)
  show "length (put a idx v) = length (replicate (length a) v)" by (simp add: length_put)
next
  fix i assume "i < length (put a idx v)"
  then have i: "i < length a" by (simp add: length_put)
  then show "put a idx v ! i = replicate (length a) v ! i"
    using sorting_set[OF s] by (simp add: nth_put)
qed

lemma raise_to_mono: "nan_last x \<le> nan_last y \<Longrightarrow> nan_last (raise_to v x) \<le> nan_last (raise_to v y)"
  by (auto simp: raise_to_def)

lemma lower_to_mono: "nan_last x \<le> nan_last y \<Longrightarrow> nan_last (lower_to v x) \<le> nan_last (lower_to v y)"
  by (auto simp: lower_to_def)

lemma sorting_map:
  assumes s: "sorting idx a"
    and m: "\<And>x y. nan_last x \<le> nan_last y \<Longrightarrow> nan_last (f x) \<le> nan_last (f y)"
  shows "sorting idx (map f a)"
proof -
  have len: "length idx = length a" using s by (rule sorting_length)
  have "sorted (map (\<lambda>i. nan_last (map f a ! i)) idx)"
    unfolding sorted_iff_nth_mono
  proof (intro allI impI)
    fix p q assume pq: "p \<le> q" "q < length (map (\<lambda>i. nan_last (map f a ! i)) idx)"
    then have q: "q < length a" using len by simp
    have "idx ! p < length a" "idx ! q < length a"
      using sorting_nth_less[OF s] pq q by auto
    then show "map (\<lambda>i. nan_last (map f a ! i)) idx ! p \<le> map (\<lambda>i. nan_last (map f a ! i)) idx ! q"
      using pq q len m[OF sorting_mono[OF s pq(1) q]] by simp
  qed
  then show ?thesis using s by (simp add: sorting_def)
qed

lemma py_int_floor: "0 \<le> x \<Longrightarrow> py_int x = \<lfloor>x\<rfloor>"
  by (simp add: py_int_def)

lemma py_int_range:
  assumes "0 \<le> f" "f \<le> 1"
  shows "0 \<le> py_int (f * of_nat n)" "py_int (f * of_nat n) \<le> int n"
proof -
  have nn: "0 \<le> f * of_nat n" using assms by simp
  then show "0 \<le> py_int (f * of_nat n)" by (simp add: py_int_floor)
  have "f * of_nat n \<le> of_nat n" using assms by (simp add: mult_left_le_one_le)
  then have "\<lfloor>f * of_nat n\<rfloor> \<le> \<lfloor>(of_nat n :: rat)\<rfloor>" by (rule floor_mono)
  then show "py_int (f * of_nat n) \<le> int n" using nn by (simp add: py_int_floor)
qed

lemma py_int_less:
  assumes "0 \<le> f" "f < 1" "0 < n"
  shows "py_int (f * of_nat n) < int n"
proof -
  have nn: "0 \<le> f * of_nat n" using assms by simp
  have "f * of_nat n < of_nat n" using assms by simp
  then have "\<lfloor>f * of_nat n\<rfloor> < int n" by (simp add: floor_less_iff)
  then show ?thesis using nn by (simp add: py_int_floor)
qed

lemma low_branch:
  assumes s: "sorting idx a" and n: "a \<noteq> []" and lo: "0 \<le> lo" "lo < 1"
  shows "(if lo \<noteq> 0 then
              (let lowidx = py_int (lo * of_nat (length a)) in
               case item idx lowidx of
                 Inl e \<Rightarrow> Inl e
               | Inr j \<Rightarrow> Inr (put a (slice_to idx lowidx) (a ! j)))
            else Inr a) = Inr (map (raise_to (lower_bound a lo)) a)"
proof -
  define L where "L = nat (py_int (lo * of_nat (length a)))"
  have len: "length idx = length a" using s by (rule sorting_length)
  have L0: "0 \<le> py_int (lo * of_nat (length a))" using py_int_range(1)[of lo] lo by simp
  have L: "L < length a" using py_int_less[of lo "length a"] lo n L0 by (simp add: L_def)
  have iL: "py_int (lo * of_nat (length a)) = int L" using L0 by (simp add: L_def)
  have v: "a ! (idx ! L) = lower_bound a lo"
    using sorting_nth[OF s L] by (simp add: lower_bound_def L_def)
  have step: "put a (take L idx) (a ! (idx ! L)) = map (raise_to (lower_bound a lo)) a"
    using low_step[OF s L] v by simp
  show ?thesis
  proof (cases "lo = 0")
    case True
    then have "L = 0" by (simp add: L_def py_int_def)
    with step have "map (raise_to (lower_bound a lo)) a = a" by (simp add: put_def)
    with True show ?thesis by simp
  next
    case False
    then show ?thesis using step L len iL by (simp add: item_def slice_to_def)
  qed
qed

lemma up_branch:
  assumes s: "sorting idx a" and n: "a \<noteq> []" and up: "0 \<le> up" "up < 1"
  shows "(let upidx = int (length a) - py_int (of_nat (length a) * up) in
           case item idx (upidx - 1) of
             Inl e \<Rightarrow> Inl e
           | Inr j \<Rightarrow> Inr (put a (slice_from idx upidx) (a ! j)))
         = Inr (map (lower_to (upper_bound a up)) a)"
proof -
  define k where "k = py_int (of_nat (length a) * up)"
  define U where "U = nat (int (length a) - k)"
  have len: "length idx = length a" using s by (rule sorting_length)
  have k0: "0 \<le> k" using py_int_range(1)[of up "length a"] up by (simp add: k_def mult.commute)
  have kn: "k < int (length a)" using py_int_less[of up "length a"] up n by (simp add: k_def mult.commute)
  have U: "0 < U" "U \<le> length a" using k0 kn by (auto simp: U_def)
  have iU: "int (length a) - k = int U" using kn by (simp add: U_def)
  have U1: "nat (int U - 1) = U - 1" using U by simp
  have w: "a ! (idx ! (U - 1)) = upper_bound a up"
    using sorting_nth[OF s, of "U - 1"] U iU U1 by (simp add: upper_bound_def k_def)
  have step: "put a (drop U idx) (a ! (idx ! (U - 1))) = map (lower_to (upper_bound a up)) a"
    using up_step[OF s U] w by simp
  have "item idx (int U - 1) = Inr (idx ! (U - 1))"
    using U len U1 by (simp add: item_def)
  then show ?thesis using step iU by (simp add: slice_from_def flip: k_def)
qed

lemma clip_lower_raise: "nan_last l \<le> nan_last h \<Longrightarrow> lower_to h (raise_to l x) = clip l h x"
  by (auto simp: clip_def lower_to_def raise_to_def)

lemma raise_to_ge: "nan_last v \<le> nan_last (raise_to v x)"
  by (simp add: raise_to_def not_less)

lemma sort_key_map_mono:
  assumes "\<And>x y. nan_last x \<le> nan_last y \<Longrightarrow> nan_last (f x) \<le> nan_last (f y)"
  shows "sort_key nan_last (map f a) = map f (sort_key nan_last a)"
proof -
  have s: "sorting (argsort a) a" by (rule sorting_argsort)
  have "sorting (argsort a) (map f a)" using s assms by (rule sorting_map)
  then have "sort_key nan_last (map f a) = map ((!) (map f a)) (argsort a)"
    by (simp add: sorting_sorted)
  also have "\<dots> = map f (map ((!) a) (argsort a))"
    using sorting_set[OF s] by simp
  also have "\<dots> = map f (sort_key nan_last a)"
    using s by (simp only: sorting_sorted)
  finally show ?thesis .
qed

lemma winsorize1D_at_inner:
  assumes s: "sorting idx a" and n: "a \<noteq> []" and lo: "0 \<le> lo" "lo < 1" and up: "0 \<le> up" "up < 1"
  shows "winsorize1D_at idx a lo up =
           Inr (map (clip (lower_bound a lo) (raise_to (lower_bound a lo) (upper_bound a up))) a)"
proof -
  define v where "v = lower_bound a lo"
  define a' where "a' = map (raise_to v) a"
  have s': "sorting idx a'" unfolding a'_def using s raise_to_mono by (rule sorting_map)
  have n': "a' \<noteq> []" "length a' = length a" using n by (simp_all add: a'_def)
  have k0: "0 \<le> py_int (of_nat (length a) * up)" "py_int (of_nat (length a) * up) < int (length a)"
    using py_int_range(1)[of up "length a"] py_int_less[of up "length a"] up n
    by (simp_all add: mult.commute)
  have "upper_bound a' up = raise_to v (upper_bound a up)"
    using k0 by (simp add: upper_bound_def a'_def sort_key_map_mono[OF raise_to_mono])
  then have fin: "map (lower_to (upper_bound a' up)) a' = map (clip v (raise_to v (upper_bound a up))) a"
    by (simp add: a'_def clip_lower_raise[OF raise_to_ge])
  have low: "(if lo \<noteq> 0 then
              (let lowidx = py_int (lo * of_nat (length a)) in
               case item idx lowidx of
                 Inl e \<Rightarrow> Inl e
               | Inr j \<Rightarrow> Inr (put a (slice_to idx lowidx) (a ! j)))
            else Inr a) = Inr a'"
    using low_branch[OF s n lo] by (simp only: a'_def v_def)
  have upb: "(let upidx = int (length a) - py_int (of_nat (length a) * up) in
           case item idx (upidx - 1) of
             Inl e \<Rightarrow> Inl e
           | Inr j \<Rightarrow> Inr (put a' (slice_from idx upidx) (a' ! j)))
         = Inr (map (clip v (raise_to v (upper_bound a up))) a)"
    using up_branch[OF s' n'(1) up] by (simp only: n'(2) fin)
  show ?thesis
    unfolding winsorize1D_at_def
    by (simp only: Let_def[of "length a"] low sum.case upb flip: v_def)
qed

lemma winsorize1D_at_top:
  assumes s: "sorting idx a" and n: "a \<noteq> []" and lo: "0 \<le> lo" "lo < 1"
  shows "winsorize1D_at idx a lo 1 =
           Inr (replicate (length a) (raise_to (lower_bound a lo) (sort_key nan_last a ! (length a - 1))))"
proof -
  define v where "v = lower_bound a lo"
  define a' where "a' = map (raise_to v) a"
  have s': "sorting idx a'" unfolding a'_def using s raise_to_mono by (rule sorting_map)
  have len: "length idx = length a" using s by (rule sorting_length)
  have pos: "0 < length a" using n by simp
  have "item idx (- 1) = Inr (idx ! (length a - 1))"
    using pos len by (auto simp: item_def nat_diff_distrib' Suc_le_eq)
  moreover have "py_int (of_nat (length a) * 1) = int (length a)"
    by (simp add: py_int_def)
  moreover have "a' ! (idx ! (length a - 1)) = raise_to v (sort_key nan_last a ! (length a - 1))"
    using sorting_nth[OF s, of "length a - 1"] sorting_nth_less[OF s, of "length a - 1"] pos
    by (simp add: a'_def)
  moreover have "put a' idx x = replicate (length a) x" for x
    using all_step[OF s'] by (simp add: a'_def)
  ultimately show ?thesis
    using low_branch[OF s n lo]
    by (simp add: winsorize1D_at_def Let_def v_def a'_def slice_from_def)
qed

lemma winsorize_inner:
  assumes "a \<noteq> []" "0 \<le> lo" "lo < 1" "0 \<le> up" "up < 1"
  shows "winsorize a (lo, up) =
           Inr (map (clip (lower_bound a lo) (raise_to (lower_bound a lo) (upper_bound a up))) a)"
  using winsorize1D_at_inner[OF sorting_argsort assms] assms
  by (simp add: winsorize_def winsorize1D_def)

lemma winsorize_top:
  assumes "a \<noteq> []" "0 \<le> lo" "lo < 1"
  shows "winsorize a (lo, 1) =
           Inr (replicate (length a) (raise_to (lower_bound a lo) (sort_key nan_last a ! (length a - 1))))"
  using winsorize1D_at_top[OF sorting_argsort assms] assms
  by (simp add: winsorize_def winsorize1D_def)

lemma winsorize_empty: "winsorize [] (lo, up) = Inl ValueError \<or> winsorize [] (lo, up) = Inl IndexError"
  by (simp add: winsorize_def winsorize1D_def winsorize1D_at_def argsort_def item_def py_int_def)

lemma winsorize_lo_one: "\<exists>e. winsorize a (1, up) = Inl e"
proof -
  have "length (argsort a) = length a" using sorting_length[OF sorting_argsort] .
  then have "item (argsort a) (py_int (1 * of_nat (length a))) = Inl IndexError"
    by (simp add: item_def py_int_def)
  then show ?thesis
    by (simp add: winsorize_def winsorize1D_def winsorize1D_at_def)
qed

lemma winsorize_limits: "winsorize a (lo, up) = Inr r \<Longrightarrow> 0 \<le> lo \<and> lo \<le> 1 \<and> 0 \<le> up \<and> up \<le> 1"
  by (auto simp: winsorize_def split: if_splits)

lemma winsorize_Inr:
  assumes "winsorize a (lo, up) = Inr r"
  shows "a \<noteq> [] \<and> 0 \<le> lo \<and> lo < 1 \<and> 0 \<le> up \<and> up \<le> 1"
proof -
  have "a \<noteq> []" using assms winsorize_empty[of lo up] by auto
  moreover have "lo \<noteq> 1" using assms winsorize_lo_one[of a up] by auto
  ultimately show ?thesis using winsorize_limits[OF assms] by auto
qed

lemma set_sort_key_nan_last: "set (sort_key nan_last a) = set a"
  by simp

lemma lower_bound_mem:
  assumes "a \<noteq> []" "0 \<le> lo" "lo < 1"
  shows "lower_bound a lo \<in> set a"
proof -
  have "0 \<le> py_int (lo * of_nat (length a))" "py_int (lo * of_nat (length a)) < int (length a)"
    using py_int_range(1)[of lo "length a"] py_int_less[of lo "length a"] assms by simp_all
  then have "nat (py_int (lo * of_nat (length a))) < length (sort_key nan_last a)" by simp
  then have "lower_bound a lo \<in> set (sort_key nan_last a)"
    unfolding lower_bound_def by (rule nth_mem)
  then show ?thesis by simp
qed

lemma upper_index_less:
  assumes "a \<noteq> []" "0 \<le> up"
  shows "nat (int (length a) - py_int (of_nat (length a) * up) - 1) < length a"
proof -
  have "0 \<le> of_nat (length a) * up" using assms by simp
  then have "0 \<le> py_int (of_nat (length a) * up)" by (simp add: py_int_floor)
  moreover have "0 < length a" using assms by simp
  ultimately show ?thesis by linarith
qed

lemma upper_bound_mem:
  assumes "a \<noteq> []" "0 \<le> up"
  shows "upper_bound a up \<in> set a"
proof -
  have "nat (int (length a) - py_int (of_nat (length a) * up) - 1) < length (sort_key nan_last a)"
    using upper_index_less[OF assms] by simp
  then have "upper_bound a up \<in> set (sort_key nan_last a)"
    unfolding upper_bound_def by (rule nth_mem)
  then show ?thesis by simp
qed



lemma raise_to_id: "nan_last v \<le> nan_last x \<Longrightarrow> raise_to v x = x"
  by (auto simp: raise_to_def dest: leD)



lemma clip_mono:
  "nan_last l \<le> nan_last h \<Longrightarrow> nan_last x \<le> nan_last y \<Longrightarrow> nan_last (clip l h x) \<le> nan_last (clip l h y)"
  by (auto simp: clip_def not_less)

lemma clip_idem: "nan_last l \<le> nan_last h \<Longrightarrow> clip l h (clip l h x) = clip l h x"
  by (auto simp: clip_def not_less)

lemma clip_fix: "nan_last l \<le> nan_last x \<Longrightarrow> nan_last x \<le> nan_last h \<Longrightarrow> clip l h x = x"
  by (auto simp: clip_def not_less)

lemma winsorize_values:
  assumes "winsorize a (lo, up) = Inr r"
  shows "length r = length a \<and> set r \<subseteq> set a"
proof -
  have c: "a \<noteq> []" "0 \<le> lo" "lo < 1" "0 \<le> up" "up \<le> 1"
    using winsorize_Inr[OF assms] by simp_all
  have l: "lower_bound a lo \<in> set a" using lower_bound_mem c by simp
  have u: "upper_bound a up \<in> set a" using upper_bound_mem c by simp
  show ?thesis
  proof (cases "up = 1")
    case True
    have "sort_key nan_last a ! (length a - 1) \<in> set (sort_key nan_last a)"
      using c(1) by (intro nth_mem) simp
    then have "sort_key nan_last a ! (length a - 1) \<in> set a" by simp
    then show ?thesis
      using winsorize_top[OF c(1,2,3)] assms True l by (auto simp: raise_to_def)
  next
    case False
    then have "up < 1" using c by simp
    then show ?thesis
      using winsorize_inner[OF c(1,2,3,4)] assms l u by (auto simp: clip_def raise_to_def)
  qed
qed

lemma winsorize_idem:
  assumes "winsorize a (lo, up) = Inr r"
  shows "winsorize r (lo, up) = Inr r"
proof -
  have c: "a \<noteq> []" "0 \<le> lo" "lo < 1" "0 \<le> up" "up \<le> 1"
    using winsorize_Inr[OF assms] by simp_all
  have Lr: "nat (py_int (lo * of_nat (length a))) < length a"
    using py_int_range(1)[of lo "length a"] py_int_less[of lo "length a"] c by simp
  have Ur: "nat (int (length a) - py_int (of_nat (length a) * up) - 1) < length a"
    by (rule upper_index_less[OF c(1,4)])
  show ?thesis
  proof (cases "up = 1")
    case True
    define m where "m = raise_to (lower_bound a lo) (sort_key nan_last a ! (length a - 1))"
    have r: "r = replicate (length a) m"
      using winsorize_top[OF c(1,2,3)] assms True by (simp add: m_def)
    have rn: "r \<noteq> []" using r c(1) by simp
    have srt: "sort_key nan_last r = r"
      unfolding r by (intro sort_key_id_if_sorted) (simp add: sorted_replicate)
    have "lower_bound r lo = m" using Lr by (simp add: lower_bound_def srt) (simp add: r)
    moreover have "sort_key nan_last r ! (length r - 1) = m"
      using c(1) by (simp add: srt) (simp add: r)
    ultimately show ?thesis
      using winsorize_top[OF rn c(2,3)] True by (simp add: raise_to_def) (simp add: r)
  next
    case False
    then have up1: "up < 1" using c by simp
    define v where "v = lower_bound a lo"
    define u where "u = upper_bound a up"
    define w where "w = raise_to v u"
    have vw: "nan_last v \<le> nan_last w" unfolding w_def by (rule raise_to_ge)
    have r: "r = map (clip v w) a"
      using winsorize_inner[OF c(1,2,3,4) up1] assms by (simp add: v_def w_def u_def)
    have rn: "r \<noteq> []" "length r = length a" using r c(1) by simp_all
    have srt: "sort_key nan_last r = map (clip v w) (sort_key nan_last a)"
      unfolding r by (rule sort_key_map_mono) (rule clip_mono[OF vw])
    have v2: "lower_bound r lo = v"
      using Lr vw by (simp add: lower_bound_def srt rn) (simp add: lower_bound_def[symmetric] v_def[symmetric] clip_fix)
    have "upper_bound r up = clip v w u"
      using Ur by (simp add: upper_bound_def srt rn) (simp add: upper_bound_def[symmetric] u_def)
    also have "\<dots> = w" by (auto simp: clip_def w_def raise_to_def not_less)
    finally have u2: "upper_bound r up = w" .
    have "winsorize r (lo, up) = Inr (map (clip v (raise_to v w)) r)"
      using winsorize_inner[OF rn(1) c(2,3,4) up1] by (simp add: v2 u2)
    also have "raise_to v w = w" using vw by (rule raise_to_id)
    also have "map (clip v w) r = r" unfolding r using clip_idem[OF vw] by simp
    finally show ?thesis .
  qed
qed




text \<open>
  The routine gives the same result whichever way \<^verbatim>\<open>argsort\<close> orders cells that compare
  equal, so modelling it with a stable sort loses nothing.
\<close>

lemma winsorize1D_at_lo_one:
  assumes "sorting idx a"
  shows "winsorize1D_at idx a 1 up = Inl IndexError"
proof -
  have "length idx = length a" using assms by (rule sorting_length)
  then have "item idx (py_int (1 * of_nat (length a))) = Inl IndexError"
    by (simp add: item_def py_int_def)
  then show ?thesis by (simp add: winsorize1D_at_def)
qed

lemma winsorize1D_tie_order:
  assumes s: "sorting idx a" and l: "0 \<le> lo" "lo \<le> 1" "0 \<le> up" "up \<le> 1"
  shows "winsorize1D_at idx a lo up = winsorize1D a lo up"
proof (cases "a = []")
  case True
  then have "idx = []" using sorting_length[OF s] by simp
  then show ?thesis using True by (simp add: winsorize1D_def argsort_def)
next
  case False
  note s' = sorting_argsort[of a]
  show ?thesis
  proof (cases "lo = 1")
    case True
    then show ?thesis
      using winsorize1D_at_lo_one[OF s] winsorize1D_at_lo_one[OF s'] by (simp add: winsorize1D_def)
  next
    case lo: False
    then have lo1: "lo < 1" using l by simp
    show ?thesis
    proof (cases "up = 1")
      case True
      then show ?thesis
        using winsorize1D_at_top[OF s False l(1) lo1] winsorize1D_at_top[OF s' False l(1) lo1]
        by (simp add: winsorize1D_def)
    next
      case up: False
      then have "up < 1" using l by simp
      then show ?thesis
        using winsorize1D_at_inner[OF s False l(1) lo1 l(3)] winsorize1D_at_inner[OF s' False l(1) lo1 l(3)]
        by (simp add: winsorize1D_def)
    qed
  qed
qed

section \<open>Properties of winsorize_outliers\<close>

lemma winsorize_column_cases:
  assumes "winsorize_column c l = Inr c'"
  shows "(\<exists>t xs ys. c = Numeric t xs \<and> c' = Numeric t ys \<and> winsorize xs l = Inr ys)
         \<or> ((\<forall>t xs. c \<noteq> Numeric t xs) \<and> c' = c)"
  using assms by (cases c) (auto split: sum.splits)

lemma winsorize_column_Numeric:
  "winsorize_column (Numeric t xs) l = Inr c' \<Longrightarrow> \<exists>ys. c' = Numeric t ys \<and> winsorize xs l = Inr ys"
  by (auto split: sum.splits)

lemma winsorize_columns_rel:
  "winsorize_columns cs l = Inr cs' \<Longrightarrow>
     list_all2 (\<lambda>x y. fst y = fst x \<and> winsorize_column (snd x) l = Inr (snd y)) cs cs'"
proof (induction cs arbitrary: cs')
  case Nil
  then show ?case by simp
next
  case (Cons x cs)
  obtain name c where x: "x = (name, c)" by (cases x)
  from Cons.prems obtain c' r where
    "winsorize_column c l = Inr c'" "winsorize_columns cs l = Inr r" "cs' = (name, c') # r"
    by (auto simp: x split: sum.splits)
  then show ?case using Cons.IH[of r] by (simp add: x)
qed

lemma winsorize_outliers_index: "winsorize_outliers df l = Inr df' \<Longrightarrow> index df' = index df"
  by (auto simp: winsorize_outliers_def split: sum.splits)

lemma winsorize_outliers_rel:
  "winsorize_outliers df l = Inr df' \<Longrightarrow>
     list_all2 (\<lambda>x y. fst y = fst x \<and> winsorize_column (snd x) l = Inr (snd y)) (columns df) (columns df')"
  by (auto simp: winsorize_outliers_def split: sum.splits dest: winsorize_columns_rel)

lemma winsorize_outliers_nth:
  assumes "winsorize_outliers df l = Inr df'" and "j < length (columns df)"
  shows "fst (columns df' ! j) = fst (columns df ! j)"
    and "winsorize_column (snd (columns df ! j)) l = Inr (snd (columns df' ! j))"
  using winsorize_outliers_rel[OF assms(1)] assms(2) by (auto dest: list_all2_nthD)

lemma winsorize_outliers_length:
  "winsorize_outliers df l = Inr df' \<Longrightarrow> length (columns df') = length (columns df)"
  using winsorize_outliers_rel[of df l df'] by (auto dest: list_all2_lengthD)

lemma winsorize_outliers_Numeric:
  assumes "winsorize_outliers df l = Inr df'" and "j < length (columns df)"
    and "columns df ! j = (name, Numeric t xs)"
  shows "\<exists>ys. columns df' ! j = (name, Numeric t ys) \<and> winsorize xs l = Inr ys"
proof -
  have "fst (columns df' ! j) = name"
    using winsorize_outliers_nth(1)[OF assms(1,2)] assms(3) by simp
  moreover have "winsorize_column (Numeric t xs) l = Inr (snd (columns df' ! j))"
    using winsorize_outliers_nth(2)[OF assms(1,2)] assms(3) by simp
  ultimately show ?thesis
    using winsorize_column_Numeric[of t xs l "snd (columns df' ! j)"]
    by (cases "columns df' ! j") auto
qed

lemma winsorize_column_idem:
  "winsorize_column c l = Inr c' \<Longrightarrow> winsorize_column c' l = Inr c'"
  by (cases c; cases l) (auto split: sum.splits dest: winsorize_idem)

lemma winsorize_columns_idem:
  "winsorize_columns cs l = Inr cs' \<Longrightarrow> winsorize_columns cs' l = Inr cs'"
proof (induction cs arbitrary: cs')
  case Nil
  then show ?case by simp
next
  case (Cons x cs)
  obtain name c where x: "x = (name, c)" by (cases x)
  from Cons.prems obtain c' r where
    *: "winsorize_column c l = Inr c'" "winsorize_columns cs l = Inr r" "cs' = (name, c') # r"
    by (auto simp: x split: sum.splits)
  then show ?case using Cons.IH[of r] winsorize_column_idem[OF *(1)] by simp
qed

lemma winsorize_columns_ValueError:
  assumes "(name, Numeric t xs) \<in> set cs" and "lo < 0 \<or> 1 < lo \<or> up < 0 \<or> 1 < up"
  shows "winsorize_columns cs (lo, up) = Inl ValueError"
  using assms(1)
proof (induction cs)
  case Nil
  then show ?case by simp
next
  case (Cons x cs)
  obtain n c where x: "x = (n, c)" by (cases x)
  have bad: "winsorize ys (lo, up) = Inl ValueError" for ys
    using assms(2) by (auto simp: winsorize_def)
  show ?case
  proof (cases c)
    case (Numeric u ys)
    then show ?thesis using bad by (simp add: x)
  next
    case (Datetime64 ts)
    then show ?thesis using Cons by (auto simp: x)
  next
    case (Object os)
    then show ?thesis using Cons by (auto simp: x)
  qed
qed

lemma winsorize_column_length:
  "winsorize_column c l = Inr c' \<Longrightarrow> length (cells_of c') = length (cells_of c)"
  by (cases c; cases l) (auto split: sum.splits dest: winsorize_values)

lemma winsorize_outliers_map_of:
  assumes "winsorize_outliers df l = Inr df'"
  shows "rel_option (\<lambda>c c'. winsorize_column c l = Inr c') (map_of (columns df) k) (map_of (columns df') k)"
  using winsorize_outliers_rel[OF assms]
  by (induction rule: list_all2_induct) (auto split: prod.splits)

lemma winsorize_outliers_Date:
  assumes "winsorize_outliers df l = Inr df'"
  shows "getitem_Date df' = getitem_Date df"
proof -
  have r: "rel_option (\<lambda>c c'. winsorize_column c l = Inr c') (map_of (columns df) ''Date'') (map_of (columns df') ''Date'')"
    using assms by (rule winsorize_outliers_map_of)
  show ?thesis
  proof (cases "map_of (columns df) ''Date''")
    case None
    then show ?thesis using r by (simp add: getitem_Date_def)
  next
    case (Some c)
    then obtain c' where c': "map_of (columns df') ''Date'' = Some c'" "winsorize_column c l = Inr c'"
      using r by (auto simp: option_rel_Some1)
    then show ?thesis using Some
      by (cases c; cases l) (auto simp: getitem_Date_def split: sum.splits)
  qed
qed

section \<open>Properties of the window selection\<close>

lemma compress_map: "compress m (map f xs) = map f (compress m xs)"
  by (simp add: compress_def zip_map1 filter_map comp_def case_prod_unfold)

lemma compress_nth_positions:
  assumes "length xs = length m"
  shows "compress m xs = map ((!) xs) (compress m [0..<length m])"
proof -
  have "compress m xs = compress m (map ((!) xs) [0..<length xs])" by (simp add: map_nth)
  then show ?thesis using assms by (simp add: compress_map)
qed

lemma compress_positions_less: "i \<in> set (compress m [0..<n]) \<Longrightarrow> i < n"
  by (auto simp: compress_def dest: set_zip_leftD)

lemma compress_mask:
  "compress (map P ts) xs = map fst (filter (\<lambda>(x, t). P t) (zip xs ts))"
  by (simp add: compress_def zip_map2 filter_map comp_def case_prod_unfold)

lemma compress_self: "compress (map P ts) ts = filter P ts"
  by (induction ts) (simp_all add: compress_def)

lemma length_compress_mask:
  "length xs = length ts \<Longrightarrow> length (compress (map P ts) xs) = length (filter P ts)"
proof (induction xs ts rule: list_induct2)
  case Nil
  then show ?case by (simp add: compress_def)
next
  case (Cons x xs t ts)
  then show ?case by (simp add: compress_def)
qed

lemma cells_of_filter_column: "cells_of (filter_column m c) = compress m (cells_of c)"
  by (cases c) (simp_all add: compress_map)

lemma column_length:
  "well_formed df \<Longrightarrow> (name, c) \<in> set (columns df) \<Longrightarrow> length (cells_of c) = nrows df"
  by (auto simp: well_formed_def nrows_def list_all_iff)

lemma getitem_Date_length:
  assumes "well_formed df" and "getitem_Date df = Inr ts"
  shows "length ts = nrows df"
proof -
  have "map_of (columns df) ''Date'' = Some (Datetime64 ts)"
    using assms(2) by (auto simp: getitem_Date_def split: option.splits column.splits)
  then have "(''Date'', Datetime64 ts) \<in> set (columns df)" by (rule map_of_SomeD)
  then show ?thesis using column_length[OF assms(1)] by fastforce
qed

lemma rows_getitem_mask:
  assumes w: "well_formed df" and m: "length m = nrows df"
  shows "rows (getitem_mask df m) = compress m (rows df)"
proof -
  define ps where "ps = compress m [0..<length m]"
  have ps_less: "r < nrows df" if "r \<in> set ps" for r
    using that compress_positions_less[of r m "length m"] m by (simp add: ps_def)
  have idx: "index (getitem_mask df m) = map ((!) (index df)) ps"
    using compress_nth_positions[of "index df" m] m by (simp add: getitem_mask_def ps_def nrows_def)
  have n: "nrows (getitem_mask df m) = length ps" by (simp add: nrows_def idx)
  have cells: "cells_of (filter_column m c) = map ((!) (cells_of c)) ps"
    if "(name, c) \<in> set (columns df)" for name c
    using compress_nth_positions[of "cells_of c" m] column_length[OF w that] m
    by (simp add: cells_of_filter_column ps_def)
  have rc: "row_cells (getitem_mask df m) i = row_cells df (ps ! i)" if "i < length ps" for i
    using that cells by (auto simp: row_cells_def getitem_mask_def)
  have "rows (getitem_mask df m) = map (\<lambda>i. (index df ! (ps ! i), row_cells df (ps ! i))) [0..<length ps]"
    unfolding rows_def n using rc idx by simp
  also have "\<dots> = map (\<lambda>r. (index df ! r, row_cells df r)) (map ((!) ps) [0..<length ps])"
    by (simp add: comp_def)
  also have "\<dots> = map (\<lambda>r. (index df ! r, row_cells df r)) ps" by (simp only: map_nth)
  also have "\<dots> = map ((!) (rows df)) ps"
    using ps_less by (simp add: rows_def)
  also have "\<dots> = compress m (rows df)"
    using compress_nth_positions[of "rows df" m] m by (simp add: ps_def rows_def)
  finally show ?thesis .
qed

lemma select_window_rows:
  assumes "well_formed df" and "getitem_Date df = Inr ts"
  shows "select_window df w = Inr (getitem_mask df (window_mask ts w))"
    and "rows (getitem_mask df (window_mask ts w)) =
           map fst (filter (\<lambda>(r, t). in_window w t) (zip (rows df) ts))"
proof -
  show "select_window df w = Inr (getitem_mask df (window_mask ts w))"
    using assms(2) by (simp add: select_window_def)
  have "length (window_mask ts w) = nrows df"
    using getitem_Date_length[OF assms] by (simp add: window_mask_def)
  then have "rows (getitem_mask df (window_mask ts w)) = compress (window_mask ts w) (rows df)"
    using assms(1) by (intro rows_getitem_mask)
  then show "rows (getitem_mask df (window_mask ts w)) =
           map fst (filter (\<lambda>(r, t). in_window w t) (zip (rows df) ts))"
    by (simp add: window_mask_def compress_mask)
qed

lemma select_windows_rel:
  "select_windows df ws = Inr qs \<Longrightarrow> list_all2 (\<lambda>w q. select_window df w = Inr q) ws qs"
proof (induction ws arbitrary: qs)
  case Nil
  then show ?case by simp
next
  case (Cons w ws)
  then show ?case by (auto split: sum.splits)
qed

lemma winsorize_each_rel:
  "winsorize_each qs l = Inr ps \<Longrightarrow> list_all2 (\<lambda>q p. winsorize_outliers q l = Inr p) qs ps"
proof (induction qs arbitrary: ps)
  case Nil
  then show ?case by simp
next
  case (Cons q qs)
  then show ?case by (auto split: sum.splits)
qed

lemma clipped_partitions_rel:
  assumes "clipped_partitions df ws l = Inr ps"
  shows "list_all2 (\<lambda>w p. \<exists>q. select_window df w = Inr q \<and> winsorize_outliers q l = Inr p) ws ps"
proof -
  obtain qs where qs: "select_windows df ws = Inr qs" "winsorize_each qs l = Inr ps"
    using assms by (auto simp: clipped_partitions_def split: sum.splits)
  have a: "list_all2 (\<lambda>w q. select_window df w = Inr q) ws qs" using qs(1) by (rule select_windows_rel)
  have b: "list_all2 (\<lambda>q p. winsorize_outliers q l = Inr p) qs ps" using qs(2) by (rule winsorize_each_rel)
  have "list_all2 ((\<lambda>w q. select_window df w = Inr q) OO (\<lambda>q p. winsorize_outliers q l = Inr p)) ws ps"
    using a b by (auto simp: list.rel_compp)
  then show ?thesis by (rule list_all2_mono) auto
qed

lemma clipped_partitions_nth:
  assumes "clipped_partitions df ws l = Inr ps" and "getitem_Date df = Inr ts"
  shows "length ps = length ws"
    and "i < length ws \<Longrightarrow> winsorize_outliers (getitem_mask df (window_mask ts (ws ! i))) l = Inr (ps ! i)"
proof -
  note r = clipped_partitions_rel[OF assms(1)]
  show "length ps = length ws" using r by (auto dest: list_all2_lengthD)
  assume "i < length ws"
  then obtain q where "select_window df (ws ! i) = Inr q" "winsorize_outliers q l = Inr (ps ! i)"
    using r by (auto dest: list_all2_nthD)
  then show "winsorize_outliers (getitem_mask df (window_mask ts (ws ! i))) l = Inr (ps ! i)"
    using assms(2) by (simp add: select_window_def)
qed

section \<open>Properties of the merge\<close>

lemma cells_of_append_column: "cells_of (append_column c d) = cells_of c @ cells_of d"
  by (cases c; cases d) simp_all

lemma append_columns_rel:
  "append_columns cs ds = Inr r \<Longrightarrow>
     length ds = length cs \<and> length r = length cs
     \<and> (\<forall>j<length cs. cells_of (snd (r ! j)) = cells_of (snd (cs ! j)) @ cells_of (snd (ds ! j)))"
proof (induction cs ds arbitrary: r rule: append_columns.induct)
  case 1
  then show ?case by simp
next
  case (2 n c cs m d ds)
  from "2.prems" obtain r' where r': "n = m" "append_columns cs ds = Inr r'" "r = (n, append_column c d) # r'"
    by (auto split: if_splits sum.splits)
  have ih: "length ds = length cs \<and> length r' = length cs
     \<and> (\<forall>j<length cs. cells_of (snd (r' ! j)) = cells_of (snd (cs ! j)) @ cells_of (snd (ds ! j)))"
    using "2.IH"[OF r'(1,2)] .
  show ?case
  proof (intro conjI allI impI)
    fix j assume "j < length ((n, c) # cs)"
    then show "cells_of (snd (r ! j)) = cells_of (snd (((n, c) # cs) ! j)) @ cells_of (snd (((m, d) # ds) ! j))"
      using ih r'(3) by (cases j) (simp_all add: cells_of_append_column)
  qed (use ih r'(3) in simp_all)
qed simp_all

lemma append_columns_map_of:
  "append_columns cs ds = Inr r \<Longrightarrow> map_of cs k = Some c \<Longrightarrow>
     \<exists>d. map_of ds k = Some d \<and> map_of r k = Some (append_column c d)"
proof (induction cs ds arbitrary: r rule: append_columns.induct)
  case 1
  then show ?case by simp
next
  case (2 n c' cs m d ds)
  from "2.prems"(1) obtain r' where r': "n = m" "append_columns cs ds = Inr r'" "r = (n, append_column c' d) # r'"
    by (auto split: if_splits sum.splits)
  show ?case
  proof (cases "k = n")
    case True
    then show ?thesis using "2.prems"(2) r' by simp
  next
    case False
    then show ?thesis using "2.IH"[OF r'(1,2)] "2.prems"(2) r' by simp
  qed
qed simp_all

lemma getitem_Date_Some:
  "getitem_Date df = Inr ts \<longleftrightarrow> map_of (columns df) ''Date'' = Some (Datetime64 ts)"
  by (auto simp: getitem_Date_def split: option.splits column.splits)

lemma concat_columns_Date:
  "concat_columns ps = Inr cs \<Longrightarrow> list_all2 (\<lambda>p d. getitem_Date p = Inr d) ps ds \<Longrightarrow>
     map_of cs ''Date'' = Some (Datetime64 (concat ds))"
proof (induction ps arbitrary: cs ds rule: concat_columns.induct)
  case 1
  then show ?case by simp
next
  case (2 f)
  then show ?case by (auto simp: list_all2_Cons1 getitem_Date_Some)
next
  case (3 f g fs)
  from "3.prems"(2) obtain d ds' where ds: "ds = d # ds'" "getitem_Date f = Inr d"
    "list_all2 (\<lambda>p d. getitem_Date p = Inr d) (g # fs) ds'"
    by (auto simp: list_all2_Cons1)
  from "3.prems"(1) obtain cs' where cs': "concat_columns (g # fs) = Inr cs'"
    "append_columns (columns f) cs' = Inr cs"
    by (auto split: sum.splits)
  have "map_of cs' ''Date'' = Some (Datetime64 (concat ds'))"
    using "3.IH"[OF cs'(1) ds(3)] .
  moreover have "map_of (columns f) ''Date'' = Some (Datetime64 d)"
    using ds(2) by (simp add: getitem_Date_Some)
  ultimately show ?case
    using append_columns_map_of[OF cs'(2), of "''Date''" "Datetime64 d"] by (auto simp: ds(1))
qed

lemma getitem_Date_mask:
  "getitem_Date df = Inr ts \<Longrightarrow> getitem_Date (getitem_mask df m) = Inr (compress m ts)"
  by (simp add: getitem_Date_Some getitem_mask_def map_of_map)

lemma length_compress: "length xs = length m \<Longrightarrow> length (compress m xs) = length (compress m [0..<length m])"
  using compress_nth_positions[of xs m] by simp

lemma well_formed_getitem_mask:
  assumes "well_formed df" and "length m = nrows df"
  shows "well_formed (getitem_mask df m)"
proof -
  have "length (cells_of (filter_column m c)) = length (compress m (index df))"
    if "(name, c) \<in> set (columns df)" for name c
    using column_length[OF assms(1) that] assms(2)
      length_compress[of "cells_of c" m] length_compress[of "index df" m]
    by (simp add: cells_of_filter_column nrows_def)
  then show ?thesis
    by (auto simp: well_formed_def getitem_mask_def list_all_iff)
qed

lemma well_formed_winsorize_outliers:
  assumes "well_formed df" and "winsorize_outliers df l = Inr df'"
  shows "well_formed df'"
proof -
  have rel: "list_all2 (\<lambda>x y. fst y = fst x \<and> winsorize_column (snd x) l = Inr (snd y))
               (columns df) (columns df')"
    using assms(2) by (rule winsorize_outliers_rel)
  have "length (cells_of (snd y)) = length (index df)" if "y \<in> set (columns df')" for y
  proof -
    from that obtain j where j: "j < length (columns df')" "columns df' ! j = y"
      by (auto simp: in_set_conv_nth)
    then have jj: "j < length (columns df)" using rel by (auto dest: list_all2_lengthD)
    have "winsorize_column (snd (columns df ! j)) l = Inr (snd y)"
      using rel jj j by (auto dest: list_all2_nthD)
    then have "length (cells_of (snd y)) = length (cells_of (snd (columns df ! j)))"
      by (rule winsorize_column_length)
    moreover have "length (cells_of (snd (columns df ! j))) = length (index df)"
      using assms(1) jj column_length[of df "fst (columns df ! j)" "snd (columns df ! j)"]
      by (simp add: nrows_def)
    ultimately show ?thesis by simp
  qed
  then show ?thesis
    using winsorize_outliers_index[OF assms(2)] by (auto simp: well_formed_def list_all_iff)
qed

lemma map_eq_nth:
  "length xs = length ys \<Longrightarrow> (\<And>j. j < length xs \<Longrightarrow> f (xs ! j) = g (ys ! j)) \<Longrightarrow> map f xs = map g ys"
  by (rule nth_equalityI) simp_all

lemma upt_split: "[0..<a + b] = [0..<a] @ map ((+) a) [0..<b]"
proof -
  have "map (\<lambda>k. a + k) [0..<b] = [a..<a + b]"
    using map_add_upt[of a b] by (simp add: add.commute)
  then show ?thesis using upt_add_eq_append[of 0 a b] by simp
qed

lemma row_cells_alt: "row_cells df i = map (\<lambda>x. cells_of (snd x) ! i) (columns df)"
  by (simp add: row_cells_def case_prod_unfold)

lemma rows_stack2:
  assumes ap: "append_columns cs ds = Inr r"
    and la: "\<And>x. x \<in> set cs \<Longrightarrow> length (cells_of (snd x)) = a"
    and lb: "\<And>x. x \<in> set ds \<Longrightarrow> length (cells_of (snd x)) = b"
  shows "\<forall>x\<in>set r. length (cells_of (snd x)) = a + b"
    and "map (\<lambda>i. map (\<lambda>x. cells_of (snd x) ! i) r) [0..<a + b] =
           map (\<lambda>i. map (\<lambda>x. cells_of (snd x) ! i) cs) [0..<a]
           @ map (\<lambda>i. map (\<lambda>x. cells_of (snd x) ! i) ds) [0..<b]"
proof -
  note rel = append_columns_rel[OF ap]
  have len: "length ds = length cs" "length r = length cs" using rel by simp_all
  have cells: "cells_of (snd (r ! j)) = cells_of (snd (cs ! j)) @ cells_of (snd (ds ! j))"
    if "j < length cs" for j using rel that by simp
  have ca: "length (cells_of (snd (cs ! j))) = a" if "j < length cs" for j
    using la[of "cs ! j"] that by simp
  have cb: "length (cells_of (snd (ds ! j))) = b" if "j < length cs" for j
    using lb[of "ds ! j"] that len by simp
  show "\<forall>x\<in>set r. length (cells_of (snd x)) = a + b"
  proof
    fix x assume "x \<in> set r"
    then obtain j where j: "j < length cs" "r ! j = x"
      using len by (auto simp: in_set_conv_nth)
    show "length (cells_of (snd x)) = a + b"
      using cells[OF j(1)] ca[OF j(1)] cb[OF j(1)] j(2) by simp
  qed
  have low: "map (\<lambda>x. cells_of (snd x) ! i) r = map (\<lambda>x. cells_of (snd x) ! i) cs" if "i < a" for i
    using len that by (intro map_eq_nth) (simp_all add: cells ca nth_append)
  have high: "map (\<lambda>x. cells_of (snd x) ! (a + k)) r = map (\<lambda>x. cells_of (snd x) ! k) ds" for k
    using len by (intro map_eq_nth) (simp_all add: cells ca nth_append)
  have "map (\<lambda>i. map (\<lambda>x. cells_of (snd x) ! i) r) [0..<a + b] =
      map (\<lambda>i. map (\<lambda>x. cells_of (snd x) ! i) r) [0..<a]
      @ map (\<lambda>i. map (\<lambda>x. cells_of (snd x) ! i) r) (map ((+) a) [0..<b])"
    by (simp only: upt_split map_append)
  moreover have "map (\<lambda>i. map (\<lambda>x. cells_of (snd x) ! i) r) [0..<a] =
      map (\<lambda>i. map (\<lambda>x. cells_of (snd x) ! i) cs) [0..<a]"
    by (rule map_cong) (simp_all add: low)
  moreover have "map (\<lambda>i. map (\<lambda>x. cells_of (snd x) ! i) r) (map ((+) a) [0..<b]) =
      map (\<lambda>i. map (\<lambda>x. cells_of (snd x) ! i) ds) [0..<b]"
    unfolding map_map by (rule map_cong) (simp_all add: high)
  ultimately show "map (\<lambda>i. map (\<lambda>x. cells_of (snd x) ! i) r) [0..<a + b] =
           map (\<lambda>i. map (\<lambda>x. cells_of (snd x) ! i) cs) [0..<a]
           @ map (\<lambda>i. map (\<lambda>x. cells_of (snd x) ! i) ds) [0..<b]"
    by (simp only:)
qed

lemma concat_columns_rows:
  "concat_columns ps = Inr cs \<Longrightarrow> (\<forall>p\<in>set ps. well_formed p) \<Longrightarrow>
     (\<forall>x\<in>set cs. length (cells_of (snd x)) = sum_list (map nrows ps))
     \<and> map (\<lambda>i. map (\<lambda>x. cells_of (snd x) ! i) cs) [0..<sum_list (map nrows ps)] =
         concat (map (\<lambda>p. map (row_cells p) [0..<nrows p]) ps)"
proof (induction ps arbitrary: cs rule: concat_columns.induct)
  case 1
  then show ?case by simp
next
  case (2 f)
  then have "cs = columns f" "well_formed f" by simp_all
  then show ?case
    using column_length[of f] by (auto simp: row_cells_alt)
next
  case (3 f g fs)
  from "3.prems"(1) obtain cs' where cs': "concat_columns (g # fs) = Inr cs'"
    "append_columns (columns f) cs' = Inr cs"
    by (auto split: sum.splits)
  have ih: "(\<forall>x\<in>set cs'. length (cells_of (snd x)) = sum_list (map nrows (g # fs)))
     \<and> map (\<lambda>i. map (\<lambda>x. cells_of (snd x) ! i) cs') [0..<sum_list (map nrows (g # fs))] =
         concat (map (\<lambda>p. map (row_cells p) [0..<nrows p]) (g # fs))"
    using "3.IH"[OF cs'(1)] "3.prems"(2) by simp
  have la: "length (cells_of (snd x)) = nrows f" if "x \<in> set (columns f)" for x
    using column_length[of f "fst x" "snd x"] "3.prems"(2) that by simp
  have lb: "length (cells_of (snd x)) = sum_list (map nrows (g # fs))" if "x \<in> set cs'" for x
    using ih that by blast
  note st = rows_stack2[OF cs'(2) la lb]
  have "map (\<lambda>i. map (\<lambda>x. cells_of (snd x) ! i) cs) [0..<nrows f + sum_list (map nrows (g # fs))] =
         map (row_cells f) [0..<nrows f] @ concat (map (\<lambda>p. map (row_cells p) [0..<nrows p]) (g # fs))"
    using st(2) ih by (simp add: row_cells_alt)
  then show ?case using st(1) by simp
qed

lemma rows_snd: "map snd (rows df) = map (row_cells df) [0..<nrows df]"
  by (simp add: rows_def comp_def)

lemma rows_fst: "map fst (rows df) = index df"
  by (simp add: rows_def comp_def nrows_def map_nth)

lemma concat_frames_rows:
  assumes "concat_frames ps = Inr out" and "\<forall>p\<in>set ps. well_formed p"
  shows "nrows out = sum_list (map nrows ps)"
    and "map snd (rows out) = concat (map (\<lambda>p. map snd (rows p)) ps)"
proof -
  obtain cs where cs: "concat_columns ps = Inr cs"
    "out = \<lparr>index = [0..<sum_list (map nrows ps)], columns = cs\<rparr>"
    using assms(1) by (auto simp: concat_frames_def split: sum.splits)
  show n: "nrows out = sum_list (map nrows ps)" by (simp add: cs(2) nrows_def)
  have "row_cells out = (\<lambda>i. map (\<lambda>x. cells_of (snd x) ! i) cs)"
    by (simp add: fun_eq_iff row_cells_alt cs(2))
  then have "map (row_cells out) [0..<nrows out] = concat (map (\<lambda>p. map (row_cells p) [0..<nrows p]) ps)"
    using concat_columns_rows[OF cs(1) assms(2)] by (simp add: n)
  then show "map snd (rows out) = concat (map (\<lambda>p. map snd (rows p)) ps)"
    by (simp add: rows_snd)
qed

lemma concat_frames_Date:
  assumes "concat_frames ps = Inr out" and "list_all2 (\<lambda>p d. getitem_Date p = Inr d) ps ds"
  shows "getitem_Date out = Inr (concat ds)"
proof -
  obtain cs where cs: "concat_columns ps = Inr cs"
    "out = \<lparr>index = [0..<sum_list (map nrows ps)], columns = cs\<rparr>"
    using assms(1) by (auto simp: concat_frames_def split: sum.splits)
  show ?thesis using concat_columns_Date[OF cs(1) assms(2)] by (simp add: getitem_Date_Some cs(2))
qed

lemma partition_facts:
  assumes w: "well_formed df" and d: "getitem_Date df = Inr ts"
    and p: "winsorize_outliers (getitem_mask df (window_mask ts w)) l = Inr p"
  shows "well_formed p"
    and "nrows p = length (filter (in_window w) ts)"
    and "getitem_Date p = Inr (filter (in_window w) ts)"
    and "map fst (rows p) = map (\<lambda>(r, t). fst r) (filter (\<lambda>(r, t). in_window w t) (zip (rows df) ts))"
proof -
  have len: "length ts = nrows df" using w d by (rule getitem_Date_length)
  then have lm: "length (window_mask ts w) = nrows df" by (simp add: window_mask_def)
  have wq: "well_formed (getitem_mask df (window_mask ts w))" using w lm by (rule well_formed_getitem_mask)
  show "well_formed p" using wq p by (rule well_formed_winsorize_outliers)
  have ip: "index p = index (getitem_mask df (window_mask ts w))"
    using p by (rule winsorize_outliers_index)
  show "nrows p = length (filter (in_window w) ts)"
    using len length_compress_mask[of "index df" ts "in_window w"]
    by (simp add: nrows_def ip getitem_mask_def window_mask_def)
  show "getitem_Date p = Inr (filter (in_window w) ts)"
    using winsorize_outliers_Date[OF p] getitem_Date_mask[OF d, of "window_mask ts w"]
    by (simp add: window_mask_def compress_self)
  have "map fst (rows p) = map fst (rows (getitem_mask df (window_mask ts w)))"
    by (simp add: rows_fst ip)
  then show "map fst (rows p) = map (\<lambda>(r, t). fst r) (filter (\<lambda>(r, t). in_window w t) (zip (rows df) ts))"
    using select_window_rows(2)[OF w d, of w] by (simp add: comp_def case_prod_unfold)
qed

lemma clipped_partitions_all2:
  assumes "clipped_partitions df ws l = Inr ps" and "getitem_Date df = Inr ts"
  shows "list_all2 (\<lambda>w p. winsorize_outliers (getitem_mask df (window_mask ts w)) l = Inr p) ws ps"
proof -
  have "list_all2 (\<lambda>w p. \<exists>q. select_window df w = Inr q \<and> winsorize_outliers q l = Inr p) ws ps"
    using assms(1) by (rule clipped_partitions_rel)
  then show ?thesis
  proof (rule list_all2_mono)
    fix w p assume "\<exists>q. select_window df w = Inr q \<and> winsorize_outliers q l = Inr p"
    then show "winsorize_outliers (getitem_mask df (window_mask ts w)) l = Inr p"
      using assms(2) by (auto simp: select_window_def)
  qed
qed


section \<open>Bounds of a clipped column\<close>


lemma upper_bound_present:
  assumes "a \<noteq> []" and "0 \<le> up" and "None \<notin> set a"
  shows "\<exists>h. upper_bound a up = Some h"
proof -
  have m: "upper_bound a up \<in> set a" using assms(1,2) by (rule upper_bound_mem)
  show ?thesis
  proof (cases "upper_bound a up")
    case None
    then show ?thesis using m assms(3) by simp
  next
    case (Some h)
    then show ?thesis by simp
  qed
qed


lemma partitions_well_formed:
  assumes "well_formed df" and "getitem_Date df = Inr ts"
    and "list_all2 (\<lambda>w p. winsorize_outliers (getitem_mask df (window_mask ts w)) l = Inr p) ws ps"
  shows "\<forall>p\<in>set ps. well_formed p"
proof
  fix p assume "p \<in> set ps"
  then obtain i where i: "i < length ps" "ps ! i = p" by (auto simp: in_set_conv_nth)
  then have "winsorize_outliers (getitem_mask df (window_mask ts (ws ! i))) l = Inr p"
    using assms(3) by (auto dest: list_all2_nthD2)
  then show "well_formed p" by (rule partition_facts(1)[OF assms(1,2)])
qed

section \<open>When the pipeline returns a table\<close>

text \<open>
  With limits \<open>0 \<le> lo < 1\<close> and \<open>0 \<le> up \<le> 1\<close> the pipeline returns a table whenever every
  window selects at least one row. It raises whenever a window selects no row of a frame
  that has a numeric column: the library routine reads \<^verbatim>\<open>a[idx[lowidx]]\<close> or
  \<^verbatim>\<open>a[idx[upidx - 1]]\<close> of an empty column.
\<close>

lemma winsorize_returns:
  assumes "a \<noteq> []" "0 \<le> lo" "lo < 1" "0 \<le> up" "up \<le> 1"
  shows "\<exists>r. winsorize a (lo, up) = Inr r"
proof (cases "up = 1")
  case True
  then show ?thesis using winsorize_top[OF assms(1,2,3)] by simp
next
  case False
  then have "up < 1" using assms(5) by simp
  then show ?thesis using winsorize_inner[OF assms(1,2,3,4)] by simp
qed

lemma winsorize_columns_returns:
  assumes "\<And>name t xs. (name, Numeric t xs) \<in> set cs \<Longrightarrow> xs \<noteq> []"
    and "0 \<le> lo" "lo < 1" "0 \<le> up" "up \<le> 1"
  shows "\<exists>cs'. winsorize_columns cs (lo, up) = Inr cs'"
  using assms(1)
proof (induction cs)
  case Nil
  then show ?case by simp
next
  case (Cons x cs)
  obtain n c where x: "x = (n, c)" by (cases x)
  obtain cs' where cs': "winsorize_columns cs (lo, up) = Inr cs'"
    using Cons by auto
  have "\<exists>c'. winsorize_column c (lo, up) = Inr c'"
  proof (cases c)
    case (Numeric t xs)
    then have "xs \<noteq> []" using Cons.prems[of n t xs] by (simp add: x)
    then obtain r where "winsorize xs (lo, up) = Inr r"
      using winsorize_returns assms(2-5) by blast
    then show ?thesis using Numeric by simp
  qed simp_all
  then show ?case using cs' by (auto simp: x)
qed

lemma append_columns_returns:
  "map fst cs = map fst ds \<Longrightarrow> \<exists>r. append_columns cs ds = Inr r \<and> map fst r = map fst cs"
proof (induction cs ds rule: append_columns.induct)
  case 1
  then show ?case by simp
next
  case (2 n c cs m d ds)
  then show ?case by auto
qed simp_all

lemma concat_columns_returns:
  "ps \<noteq> [] \<Longrightarrow> (\<forall>p\<in>set ps. map fst (columns p) = names) \<Longrightarrow>
     \<exists>cs. concat_columns ps = Inr cs \<and> map fst cs = names"
proof (induction ps rule: concat_columns.induct)
  case 1
  then show ?case by simp
next
  case (2 f)
  then show ?case by simp
next
  case (3 f g fs)
  then obtain cs' where cs': "concat_columns (g # fs) = Inr cs'" "map fst cs' = names" by auto
  have "map fst (columns f) = map fst cs'" using "3.prems"(2) cs'(2) by simp
  then obtain r where "append_columns (columns f) cs' = Inr r" "map fst r = map fst (columns f)"
    using append_columns_returns by blast
  then show ?case using cs' "3.prems"(2) by simp
qed

lemma winsorize_each_returns:
  "(\<And>p. p \<in> set ps \<Longrightarrow> \<exists>p'. winsorize_outliers p l = Inr p') \<Longrightarrow> \<exists>ps'. winsorize_each ps l = Inr ps'"
proof (induction ps)
  case Nil
  then show ?case by simp
next
  case (Cons p ps)
  obtain p' where "winsorize_outliers p l = Inr p'" using Cons.prems[of p] by auto
  moreover obtain ps' where "winsorize_each ps l = Inr ps'" using Cons by auto
  ultimately show ?case by simp
qed

lemma select_windows_returns:
  "getitem_Date df = Inr ts \<Longrightarrow>
     select_windows df ws = Inr (map (\<lambda>w. getitem_mask df (window_mask ts w)) ws)"
  by (induction ws) (simp_all add: select_window_def)

lemma names_winsorize_outliers:
  assumes "winsorize_outliers df l = Inr df'"
  shows "map fst (columns df') = map fst (columns df)"
  using winsorize_outliers_rel[OF assms] by (induction rule: list_all2_induct) auto

lemma segment_and_clip_returns:
  assumes w: "well_formed df" and d: "getitem_Date df = Inr ts"
    and ws: "windows \<noteq> []"
    and ne: "\<And>w. w \<in> set windows \<Longrightarrow> filter (in_window w) ts \<noteq> []"
    and l: "0 \<le> lo" "lo < 1" "0 \<le> up" "up \<le> 1"
  shows "\<exists>out. segment_and_clip df windows (lo, up) = Inr out"
proof -
  define qs where "qs = map (\<lambda>w. getitem_mask df (window_mask ts w)) windows"
  have sel: "select_windows df windows = Inr qs"
    using d unfolding qs_def by (rule select_windows_returns)
  have len: "length ts = nrows df" using w d by (rule getitem_Date_length)
  have run: "\<exists>p'. winsorize_outliers q (lo, up) = Inr p'" if "q \<in> set qs" for q
  proof -
    from that obtain w where w': "w \<in> set windows" "q = getitem_mask df (window_mask ts w)"
      by (auto simp: qs_def)
    have "xs \<noteq> []" if "(name, Numeric t xs) \<in> set (columns q)" for name t xs
    proof -
      from that obtain c where c: "(name, c) \<in> set (columns df)"
        "Numeric t xs = filter_column (window_mask ts w) c"
        by (auto simp: w'(2) getitem_mask_def)
      have "length (cells_of c) = length ts" using column_length[OF w c(1)] len by simp
      then have "length (cells_of (filter_column (window_mask ts w) c)) = length (filter (in_window w) ts)"
        by (simp add: cells_of_filter_column window_mask_def length_compress_mask)
      then have "length xs = length (filter (in_window w) ts)" using c(2)[symmetric] by simp
      then show ?thesis using ne[OF w'(1)] by auto
    qed
    then obtain cs' where "winsorize_columns (columns q) (lo, up) = Inr cs'"
      using winsorize_columns_returns[of "columns q" lo up] l by blast
    then show ?thesis by (simp add: winsorize_outliers_def)
  qed
  then obtain ps where ps: "winsorize_each qs (lo, up) = Inr ps"
    using winsorize_each_returns[of qs "(lo, up)"] by blast
  have cp: "clipped_partitions df windows (lo, up) = Inr ps"
    using sel ps by (simp add: clipped_partitions_def)
  have rel: "list_all2 (\<lambda>q p. winsorize_outliers q (lo, up) = Inr p) qs ps"
    using ps by (rule winsorize_each_rel)
  have "ps \<noteq> []" using rel ws by (auto simp: qs_def dest: list_all2_lengthD)
  moreover have "\<forall>p\<in>set ps. map fst (columns p) = map fst (columns df)"
  proof
    fix p assume "p \<in> set ps"
    then obtain i where i: "i < length ps" "ps ! i = p" by (auto simp: in_set_conv_nth)
    then have r: "winsorize_outliers (qs ! i) (lo, up) = Inr p" and iq: "i < length qs"
      using rel by (auto dest: list_all2_nthD2 list_all2_lengthD)
    have "map fst (columns (qs ! i)) = map fst (columns df)"
      using iq by (simp add: qs_def getitem_mask_def comp_def case_prod_unfold)
    then show "map fst (columns p) = map fst (columns df)"
      using names_winsorize_outliers[OF r] by simp
  qed
  ultimately obtain cs where "concat_columns ps = Inr cs"
    using concat_columns_returns by blast
  then show ?thesis using cp by (simp add: segment_and_clip_def concat_frames_def)
qed

lemma segment_and_clip_empty_window:
  assumes d: "getitem_Date df = Inr ts"
    and w: "w \<in> set windows" "filter (in_window w) ts = []"
    and c: "(name, Numeric t xs) \<in> set (columns df)" "length xs = length ts"
  shows "\<exists>e. segment_and_clip df windows limits = Inl e"
proof (rule ccontr)
  assume "\<not> (\<exists>e. segment_and_clip df windows limits = Inl e)"
  then obtain out where "segment_and_clip df windows limits = Inr out"
    by (cases "segment_and_clip df windows limits") auto
  then obtain ps where ps: "clipped_partitions df windows limits = Inr ps"
    by (auto simp: segment_and_clip_def split: sum.splits)
  obtain i where i: "i < length windows" "windows ! i = w" using w(1) by (auto simp: in_set_conv_nth)
  define q where "q = getitem_mask df (window_mask ts w)"
  have run: "winsorize_outliers q limits = Inr (ps ! i)"
    using clipped_partitions_nth(2)[OF ps d i(1)] i(2) by (simp add: q_def)
  obtain j where j: "j < length (columns df)" "columns df ! j = (name, Numeric t xs)"
    using c(1) by (auto simp: in_set_conv_nth)
  have "length (compress (window_mask ts w) xs) = 0"
    using c(2) w(2) by (simp add: window_mask_def length_compress_mask)
  then have col: "columns q ! j = (name, Numeric t [])" and jq: "j < length (columns q)"
    using j by (simp_all add: q_def getitem_mask_def)
  obtain lo up where lim: "limits = (lo, up)" by (cases limits)
  obtain ys where "winsorize [] (lo, up) = Inr ys"
    using winsorize_outliers_Numeric[OF run jq col] lim by auto
  then show False using winsorize_empty[of lo up] by auto
qed

text \<open>
  The notebook's own call, on the nine-row frame: its last two windows select no row, and
  the third call of \<^verbatim>\<open>winsorize_outliers\<close> raises.
\<close>

lemma df_merged_empty_window: "df_merged frame9 = Inl IndexError"
  by code_simp

section \<open>The claims\<close>

subsection \<open>C1\<close>




subsection \<open>C2\<close>




subsection \<open>C3\<close>




subsection \<open>C4\<close>

text \<open>
  C4, as amended. On a table with a numeric column, \<^verbatim>\<open>winsorize_outliers\<close> fails with
  ValueError whenever a fraction is negative or greater than 1.
\<close>

theorem winsorize_outliers_rejects_fractions_outside_unit_interval:
  assumes "(name, Numeric t xs) \<in> set (columns df)"
    and "lo < 0 \<or> 1 < lo \<or> up < 0 \<or> 1 < up"
  shows "winsorize_outliers df (lo, up) = Inl ValueError"
  using winsorize_columns_ValueError[OF assms] by (simp add: winsorize_outliers_def)

text \<open>
  A negative lower fraction on the sample frame.
\<close>

theorem winsorize_outliers_rejects_fractions_outside_unit_interval_witness:
  "(''Subways'', Numeric int64 [Some 40, Some 10, Some 30, Some 20]) \<in> set (columns frame4)
   \<and> (- 1 / 20 :: rat) < 0
   \<and> winsorize_outliers frame4 (- 1 / 20, 1 / 20) = Inl ValueError"
proof -
  have h1: "(''Subways'', Numeric int64 [Some 40, Some 10, Some 30, Some 20]) \<in> set (columns frame4)"
    by (simp add: frame4_def)
  have h2: "(- 1 / 20 :: rat) < 0" by simp
  have h3: "(- 1 / 20 :: rat) < 0 \<or> 1 < (- 1 / 20 :: rat) \<or> (1 / 20 :: rat) < 0 \<or> 1 < (1 / 20 :: rat)"
    using h2 by simp
  show ?thesis
    using winsorize_outliers_rejects_fractions_outside_unit_interval[OF h1 h3] h1 h2 by simp
qed

text \<open>
  C4 as stated fails. The limits (0.6, 0.6) sum to more than 1 and are accepted: a column
  1, 2 comes back as 2, 2.
\<close>

theorem crossed_fractions_accepted_counterexample:
  "winsorize_outliers
     \<lparr>index = [0, 1],
      columns = [(''Date'', Datetime64 [Some (day 18336), Some (day 18346)]),
                 (''Subways'', Numeric int64 [Some 1, Some 2])]\<rparr> (3 / 5, 3 / 5) =
   Inr \<lparr>index = [0, 1],
        columns = [(''Date'', Datetime64 [Some (day 18336), Some (day 18346)]),
                   (''Subways'', Numeric int64 [Some 2, Some 2])]\<rparr>"
  by code_simp

subsection \<open>C5\<close>



subsection \<open>C6\<close>

text \<open>
  C6. Every clipped partition lists the labels of the input rows of its window in their
  input order, the rows of the merged table are the rows of the partitions one partition
  after the other in the order of the windows, and so the Date column of the merged
  table runs through the windows in the order they were supplied, not in date order.
\<close>

theorem segment_and_clip_order:
  assumes "well_formed df" and "getitem_Date df = Inr ts"
    and "clipped_partitions df windows limits = Inr ps"
    and "concat_frames ps = Inr out"
  shows "length ps = length windows
     \<and> (\<forall>i<length windows.
           map fst (rows (ps ! i)) =
             map (\<lambda>(r, t). fst r) (filter (\<lambda>(r, t). in_window (windows ! i) t) (zip (rows df) ts)))
     \<and> map snd (rows out) = concat (map (\<lambda>p. map snd (rows p)) ps)
     \<and> getitem_Date out = Inr (concat (map (\<lambda>w. filter (in_window w) ts) windows))"
proof -
  have all: "list_all2 (\<lambda>w p. winsorize_outliers (getitem_mask df (window_mask ts w)) limits = Inr p) windows ps"
    using assms(3,2) by (rule clipped_partitions_all2)
  have len: "length ps = length windows" using all by (auto dest: list_all2_lengthD)
  have wfs: "\<forall>p\<in>set ps. well_formed p"
    using assms(1,2) all by (rule partitions_well_formed)
  have labels: "map fst (rows (ps ! i)) =
      map (\<lambda>(r, t). fst r) (filter (\<lambda>(r, t). in_window (windows ! i) t) (zip (rows df) ts))"
    if "i < length windows" for i
  proof -
    have "winsorize_outliers (getitem_mask df (window_mask ts (windows ! i))) limits = Inr (ps ! i)"
      using all that by (auto dest: list_all2_nthD)
    then show ?thesis by (rule partition_facts(4)[OF assms(1,2)])
  qed
  have "list_all2 (\<lambda>w p. getitem_Date p = Inr (filter (in_window w) ts)) windows ps"
    using all by (rule list_all2_mono) (rule partition_facts(3)[OF assms(1,2)])
  then have "list_all2 (\<lambda>p d. getitem_Date p = Inr d) ps (map (\<lambda>w. filter (in_window w) ts) windows)"
    by (simp add: list_all2_map2 list_all2_conv_all_nth)
  then have "getitem_Date out = Inr (concat (map (\<lambda>w. filter (in_window w) ts) windows))"
    using assms(4) by (intro concat_frames_Date)
  then show ?thesis
    using len labels concat_frames_rows(2)[OF assms(4) wfs] by blast
qed

text \<open>
  The nine-row sample with the two windows given in reverse date order: the merged table
  lists the later window's rows first.
\<close>

theorem segment_and_clip_order_witness:
  "well_formed frame9 \<and> getitem_Date frame9 = Inr frame9_dates
   \<and> clipped_partitions frame9 [(day 18343, day 18786), (day 18322, day 18343)] (1 / 4, 1 / 4) =
       Inr frame9_partitions
   \<and> concat_frames frame9_partitions = Inr frame9_merged
   \<and> map fst (rows (frame9_partitions ! 0)) = [1, 3, 6, 8]
   \<and> map fst (rows (frame9_partitions ! 1)) = [0, 2, 5, 7]
   \<and> map snd (rows frame9_merged) = concat (map (\<lambda>p. map snd (rows p)) frame9_partitions)
   \<and> getitem_Date frame9_merged =
       Inr [Some (day 18350), Some (day 18351), Some (day 18352), Some (day 18353),
            Some (day 18330), Some (day 18331), Some (day 18332), Some (day 18333)]"
proof -
  let ?ws = "[(day 18343, day 18786), (day 18322, day 18343)]"
  have h1: "well_formed frame9" by code_simp
  have h2: "getitem_Date frame9 = Inr frame9_dates" by (simp add: getitem_Date_def frame9_def)
  have h3: "clipped_partitions frame9 ?ws (1 / 4, 1 / 4) = Inr frame9_partitions" by code_simp
  have h4: "concat_frames frame9_partitions = Inr frame9_merged" by code_simp
  note t = segment_and_clip_order[OF h1 h2 h3 h4]
  have e0: "map (\<lambda>(r, t). fst r) (filter (\<lambda>(r, t). in_window (?ws ! 0) t) (zip (rows frame9) frame9_dates))
              = [1, 3, 6, 8]" by code_simp
  have e1: "map (\<lambda>(r, t). fst r) (filter (\<lambda>(r, t). in_window (?ws ! 1) t) (zip (rows frame9) frame9_dates))
              = [0, 2, 5, 7]" by code_simp
  have e2: "concat (map (\<lambda>w. filter (in_window w) frame9_dates) ?ws) =
       [Some (day 18350), Some (day 18351), Some (day 18352), Some (day 18353),
        Some (day 18330), Some (day 18331), Some (day 18332), Some (day 18333)]" by code_simp
  from t have l0: "map fst (rows (frame9_partitions ! 0)) = [1, 3, 6, 8]"
    unfolding e0[symmetric] by simp
  from t have l1: "map fst (rows (frame9_partitions ! 1)) = [0, 2, 5, 7]"
    unfolding e1[symmetric] by simp
  from t have r: "map snd (rows frame9_merged) = concat (map (\<lambda>p. map snd (rows p)) frame9_partitions)"
    by simp
  from t have d: "getitem_Date frame9_merged =
       Inr [Some (day 18350), Some (day 18351), Some (day 18352), Some (day 18353),
            Some (day 18330), Some (day 18331), Some (day 18332), Some (day 18333)]"
    unfolding e2[symmetric] by simp
  show ?thesis using h1 h2 h3 h4 l0 l1 r d by simp
qed

subsection \<open>C7\<close>

text \<open>
  C7. For every boundary pair \<open>(start, stop)\<close> the segmenter selects exactly the rows
  whose Date satisfies \<open>start \<le> Date < stop\<close>, in their original order: the rows of the
  selection are the rows of the frame, each paired with its own Date, filtered by that
  test. A row dated \<open>start\<close> passes, a row dated \<open>stop\<close> does not, and a row whose Date is
  NaT never does.
\<close>

theorem select_window_selects_half_open_interval:
  assumes "well_formed df" and "getitem_Date df = Inr ts"
  shows "\<exists>p. select_window df (start, stop) = Inr p
           \<and> rows p =
               map fst (filter (\<lambda>(r, t). case t of None \<Rightarrow> False | Some x \<Rightarrow> start \<le> x \<and> x < stop)
                          (zip (rows df) ts))"
proof -
  have "in_window (start, stop) = (\<lambda>t. case t of None \<Rightarrow> False | Some x \<Rightarrow> start \<le> x \<and> x < stop)"
    by (auto simp: in_window_def fun_eq_iff split: option.splits)
  then show ?thesis
    using select_window_rows[OF assms, of "(start, stop)"] by simp
qed

text \<open>
  On the nine-row sample the window from day 18330 to day 18333 selects rows 0, 2 and 5:
  row 0 is dated day 18330 and is kept, row 7 is dated day 18333 and is left out.
\<close>

theorem select_window_selects_half_open_interval_witness:
  "well_formed frame9 \<and> getitem_Date frame9 = Inr frame9_dates
   \<and> (\<exists>p. select_window frame9 (day 18330, day 18333) = Inr p
         \<and> rows p =
             [(0, [Timestamp (Some (day 18330)), Number (Some 40)]),
              (2, [Timestamp (Some (day 18331)), Number (Some 10)]),
              (5, [Timestamp (Some (day 18332)), Number (Some 30)])])"
proof -
  have h1: "well_formed frame9" by code_simp
  have h2: "getitem_Date frame9 = Inr frame9_dates" by (simp add: getitem_Date_def frame9_def)
  have e: "map fst (filter (\<lambda>(r, t). case t of None \<Rightarrow> False | Some x \<Rightarrow> day 18330 \<le> x \<and> x < day 18333)
                     (zip (rows frame9) frame9_dates)) =
             [(0, [Timestamp (Some (day 18330)), Number (Some 40)]),
              (2, [Timestamp (Some (day 18331)), Number (Some 10)]),
              (5, [Timestamp (Some (day 18332)), Number (Some 30)])]"
    by code_simp
  show ?thesis
    using select_window_selects_half_open_interval[OF h1 h2, of "day 18330" "day 18333"] h1 h2
    unfolding e by simp
qed

subsection \<open>C8\<close>

text \<open>
  C8. \<^verbatim>\<open>winsorize_outliers\<close> returns the same table with only the numeric columns
  changed: the row labels and their order, the column labels and the length of every
  column stay as they were, every column that is not numeric is returned as it was, and
  so the Date column is what it was.
\<close>

theorem winsorize_outliers_frame:
  assumes "winsorize_outliers df limits = Inr df'"
  shows "index df' = index df
     \<and> map fst (columns df') = map fst (columns df)
     \<and> getitem_Date df' = getitem_Date df
     \<and> (\<forall>j<length (columns df).
           length (cells_of (snd (columns df' ! j))) = length (cells_of (snd (columns df ! j)))
           \<and> (case snd (columns df ! j) of
                 Numeric t xs \<Rightarrow> (\<exists>ys. snd (columns df' ! j) = Numeric t ys)
               | c \<Rightarrow> snd (columns df' ! j) = c))"
proof -
  have rel: "list_all2 (\<lambda>x y. fst y = fst x \<and> winsorize_column (snd x) limits = Inr (snd y))
               (columns df) (columns df')"
    using assms by (rule winsorize_outliers_rel)
  have names: "map fst (columns df') = map fst (columns df)"
    using rel by (induction rule: list_all2_induct) auto
  have cols: "length (cells_of (snd (columns df' ! j))) = length (cells_of (snd (columns df ! j)))
           \<and> (case snd (columns df ! j) of
                 Numeric t xs \<Rightarrow> (\<exists>ys. snd (columns df' ! j) = Numeric t ys)
               | c \<Rightarrow> snd (columns df' ! j) = c)" if "j < length (columns df)" for j
  proof -
    have w: "winsorize_column (snd (columns df ! j)) limits = Inr (snd (columns df' ! j))"
      using winsorize_outliers_nth(2)[OF assms that] .
    then show ?thesis
      using winsorize_column_length[OF w] winsorize_column_cases[OF w]
      by (auto split: column.splits)
  qed
  show ?thesis
    using winsorize_outliers_index[OF assms] names winsorize_outliers_Date[OF assms] cols
    by blast
qed

text \<open>
  On the sample frame the labels, the Date column and the object column are untouched.
\<close>

theorem winsorize_outliers_frame_witness:
  "winsorize_outliers frame4 (1 / 4, 1 / 4) = Inr frame4_clipped
   \<and> index frame4_clipped = index frame4
   \<and> map fst (columns frame4_clipped) = map fst (columns frame4)
   \<and> getitem_Date frame4_clipped = getitem_Date frame4
   \<and> getitem_Date frame4 = Inr [Some (day 18336), Some (day 18346), Some (day 18350), Some (day 20089)]
   \<and> snd (columns frame4_clipped ! 4) = snd (columns frame4 ! 4)
   \<and> length (cells_of (snd (columns frame4_clipped ! 1))) = length (cells_of (snd (columns frame4 ! 1)))"
proof -
  have h: "winsorize_outliers frame4 (1 / 4, 1 / 4) = Inr frame4_clipped" by code_simp
  have d: "getitem_Date frame4 = Inr [Some (day 18336), Some (day 18346), Some (day 18350), Some (day 20089)]"
    by (simp add: getitem_Date_def frame4_def)
  have c: "snd (columns frame4_clipped ! 4) = snd (columns frame4 ! 4)"
    "length (cells_of (snd (columns frame4_clipped ! 1))) = length (cells_of (snd (columns frame4 ! 1)))"
    by (simp_all add: frame4_def frame4_clipped_def)
  show ?thesis using winsorize_outliers_frame[OF h] h d c by simp
qed

subsection \<open>C9\<close>

text \<open>
  C9. Winsorizing is idempotent: when \<^verbatim>\<open>winsorize_outliers\<close> has returned a frame, a
  second call with the same limits returns that very frame, so no value changes.
\<close>

theorem winsorize_outliers_idempotent:
  assumes "winsorize_outliers df limits = Inr df'"
  shows "winsorize_outliers df' limits = Inr df'"
proof -
  obtain cs where cs: "winsorize_columns (columns df) limits = Inr cs" "df' = df\<lparr>columns := cs\<rparr>"
    using assms by (auto simp: winsorize_outliers_def split: sum.splits)
  have "winsorize_columns cs limits = Inr cs" using cs(1) by (rule winsorize_columns_idem)
  then show ?thesis by (simp add: winsorize_outliers_def cs(2))
qed

text \<open>
  The sample frame, clipped once and then once more.
\<close>

theorem winsorize_outliers_idempotent_witness:
  "winsorize_outliers frame4 (1 / 4, 1 / 4) = Inr frame4_clipped
   \<and> winsorize_outliers frame4_clipped (1 / 4, 1 / 4) = Inr frame4_clipped"
proof -
  have h: "winsorize_outliers frame4 (1 / 4, 1 / 4) = Inr frame4_clipped" by code_simp
  show ?thesis using winsorize_outliers_idempotent[OF h] h by simp
qed

subsection \<open>C10\<close>

text \<open>
  C10. For every table and every numeric target column, each value of the column after
  \<^verbatim>\<open>winsorize_outliers\<close> is one of the values the column held before: a clipped entry
  is replaced by an order statistic of the column, never by a new value.
\<close>

theorem clipped_values_occur_in_column:
  assumes "winsorize_outliers df limits = Inr df'"
    and "j < length (columns df)"
    and "columns df ! j = (name, Numeric t xs)"
  shows "\<exists>ys. columns df' ! j = (name, Numeric t ys) \<and> set ys \<subseteq> set xs"
proof -
  obtain lo up where l: "limits = (lo, up)" by (cases limits)
  obtain ys where ys: "columns df' ! j = (name, Numeric t ys)" "winsorize xs (lo, up) = Inr ys"
    using winsorize_outliers_Numeric[OF assms] l by auto
  then show ?thesis using winsorize_values[of xs lo up ys] by simp
qed

text \<open>
  On the sample frame the clipped column 30, 20, 30, 20 holds only values of the column
  40, 10, 30, 20.
\<close>

theorem clipped_values_occur_in_column_witness:
  "winsorize_outliers frame4 (1 / 4, 1 / 4) = Inr frame4_clipped
   \<and> columns frame4 ! 1 = (''Subways'', Numeric int64 [Some 40, Some 10, Some 30, Some 20])
   \<and> (\<exists>ys. columns frame4_clipped ! 1 = (''Subways'', Numeric int64 ys)
         \<and> set ys \<subseteq> set [Some 40, Some 10, Some 30, Some 20])"
proof -
  have h1: "winsorize_outliers frame4 (1 / 4, 1 / 4) = Inr frame4_clipped" by code_simp
  have h2: "1 < length (columns frame4)" by (simp add: frame4_def)
  have h3: "columns frame4 ! 1 = (''Subways'', Numeric int64 [Some 40, Some 10, Some 30, Some 20])"
    by (simp add: frame4_def)
  show ?thesis using clipped_values_occur_in_column[OF h1 h2 h3] h1 h3 by simp
qed

end
